theory Spec2Isabelle
  imports Main "HOL-Library.Multiset"
begin

section \<open>Strings, characters and Python's string helpers\<close>

text \<open>
  A Python \<open>str\<close> is modelled as a \<open>string\<close> (a list of \<open>char\<close>); a \<open>char\<close> stands for
  a code point below 256. \<open>str.isspace\<close> on those code points holds for the twelve
  characters listed in \<open>py_isspace\<close>; the regular expression class \<open>\s\<close> is the same set
  and \<open>\d\<close> is the ten ASCII digits there.
\<close>

definition py_isspace :: "char \<Rightarrow> bool" where
  "py_isspace c = (c \<in> set [CHR 0x09, CHR 0x0A, CHR 0x0B, CHR 0x0C, CHR 0x0D,
                              CHR 0x1C, CHR 0x1D, CHR 0x1E, CHR 0x1F, CHR 0x20,
                              CHR 0x85, CHR 0xA0])"

definition py_isdigit :: "char \<Rightarrow> bool" where
  "py_isdigit c = (c \<in> set ''0123456789'')"

text \<open>\<open>s.strip()\<close>: leading and trailing whitespace removed.\<close>

definition py_strip :: "string \<Rightarrow> string" where
  "py_strip s = rev (dropWhile py_isspace (rev (dropWhile py_isspace s)))"

text \<open>\<open>s.lower()\<close>: the letters A-Z, and the Latin-1 capitals 0xC0-0xDE other than 0xD7,
  move up by 32; every other character below 256 is left alone.\<close>

definition py_lower_char :: "char \<Rightarrow> char" where
  "py_lower_char c =
     (let n = (of_char c :: nat) in
      if (65 \<le> n \<and> n \<le> 90) \<or> (192 \<le> n \<and> n \<le> 222 \<and> n \<noteq> 215)
      then char_of (n + 32) else c)"

definition py_lower :: "string \<Rightarrow> string" where
  "py_lower s = map py_lower_char s"

text \<open>The exceptions of the source that the model keeps as values.\<close>

datatype py_error = ValueError | FileNotFoundError | IndexError

section \<open>Entries and pools\<close>

text \<open>An entry is the tuple \<open>(kanji, kana, meaning)\<close> of three \<open>str\<close> values.\<close>

type_synonym entry = "string \<times> string \<times> string"

text \<open>
  \<open>build_pools\<close> keeps three lists and three sets while it walks the entries. A Python
  string is truthy when it is not empty.
\<close>

record build_pools_locals =
  kanji_pool :: "string list"
  kana_pool :: "string list"
  meaning_pool :: "string list"
  seen_kanji :: "string set"
  seen_kana :: "string set"
  seen_meaning :: "string set"

definition build_pools_init :: build_pools_locals where
  "build_pools_init =
     \<lparr>kanji_pool = [], kana_pool = [], meaning_pool = [],
      seen_kanji = {}, seen_kana = {}, seen_meaning = {}\<rparr>"

definition build_pools_step :: "build_pools_locals \<Rightarrow> entry \<Rightarrow> build_pools_locals" where
  "build_pools_step s e =
     (case e of (kanji, kana, meaning) \<Rightarrow>
        let s1 = (if kanji \<noteq> [] \<and> kanji \<notin> seen_kanji s
                  then s\<lparr>seen_kanji := insert kanji (seen_kanji s),
                         kanji_pool := kanji_pool s @ [kanji]\<rparr>
                  else s);
            s2 = (if kana \<noteq> [] \<and> kana \<notin> seen_kana s1
                  then s1\<lparr>seen_kana := insert kana (seen_kana s1),
                          kana_pool := kana_pool s1 @ [kana]\<rparr>
                  else s1);
            s3 = (if meaning \<noteq> [] \<and> meaning \<notin> seen_meaning s2
                  then s2\<lparr>seen_meaning := insert meaning (seen_meaning s2),
                          meaning_pool := meaning_pool s2 @ [meaning]\<rparr>
                  else s2)
        in s3)"

definition build_pools :: "entry list \<Rightarrow> string list \<times> string list \<times> string list" where
  "build_pools entries =
     (let s = foldl build_pools_step build_pools_init entries
      in (kanji_pool s, kana_pool s, meaning_pool s))"

text \<open>
  What the pool builder is to return, in the words of its contract: the values at the
  positions where a non-empty value appears for the first time, in the order of those
  positions.
\<close>

definition first_appearances :: "string list \<Rightarrow> string list" where
  "first_appearances vals =
     map (\<lambda>i. vals ! i)
       (filter (\<lambda>i. vals ! i \<noteq> [] \<and> vals ! i \<notin> set (take i vals)) [0..<length vals])"

text \<open>One field of the loop on its own: append a value that is non-empty and new.\<close>

definition add_unique :: "string list \<Rightarrow> string \<Rightarrow> string list" where
  "add_unique acc v = (if v \<noteq> [] \<and> v \<notin> set acc then acc @ [v] else acc)"

section \<open>The random source\<close>

text \<open>
  The generator draws from a \<open>random.Random\<close> object (or from the module-level generator
  when none is passed). The model makes the source explicit: it is the sequence of raw
  numbers it will deliver and the position reached so far. \<open>randbelow n\<close> reduces the next
  raw number into \<open>range(n)\<close>; every sequence of results the library can return is the
  reduction of some sequence of raw numbers. It is only called with \<open>n > 0\<close>.
\<close>

record rng =
  draws :: "nat \<Rightarrow> nat"
  pos :: nat

definition randbelow :: "nat \<Rightarrow> rng \<Rightarrow> nat \<times> rng" where
  "randbelow n r = (draws r (pos r) mod n, r\<lparr>pos := Suc (pos r)\<rparr>)"

text \<open>
  \<open>rng.sample(population, k)\<close>, as the library has it. \<open>ValueError\<close> when the sample is
  larger than the population. Otherwise one of two loops, chosen by the size of the
  population against \<open>setsize\<close>, which is 21, and \<open>21 + 4 ** ceil(log(3 k, 4))\<close> when
  \<open>k > 5\<close> (\<open>ceil_log4 m\<close> is the least \<open>j\<close> with \<open>m \<le> 4 ^ j\<close>).
\<close>

function ceil_log4_from :: "nat \<Rightarrow> nat \<Rightarrow> nat \<Rightarrow> nat" where
  "ceil_log4_from m j p = (if m \<le> p \<or> p = 0 then j else ceil_log4_from m (Suc j) (4 * p))"
  by pat_completeness auto
termination
  by (relation "measure (\<lambda>(m, j, p). m - p)") auto

declare ceil_log4_from.simps [simp del]

definition ceil_log4 :: "nat \<Rightarrow> nat" where
  "ceil_log4 m = ceil_log4_from m 0 1"

definition sample_setsize :: "nat \<Rightarrow> nat" where
  "sample_setsize k = (if 5 < k then 21 + 4 ^ ceil_log4 (k * 3) else 21)"

text \<open>
  The pool loop, for \<open>n \<le> setsize\<close>:
  \<^verbatim>\<open>for i in range(k): j = randbelow(n - i); result[i] = pool[j]; pool[j] = pool[n - i - 1]\<close>.
\<close>

fun sample_loop :: "'a list \<Rightarrow> nat \<Rightarrow> nat \<Rightarrow> rng \<Rightarrow> 'a list \<times> rng" where
  "sample_loop pool m 0 r = ([], r)"
| "sample_loop pool m (Suc k) r =
     (case randbelow m r of (j, r') \<Rightarrow>
        (case sample_loop (pool[j := pool ! (m - 1)]) (m - 1) k r' of
           (rest, r'') \<Rightarrow> (pool ! j # rest, r'')))"

text \<open>
  The set loop, for larger populations:
  \<^verbatim>\<open>for i in range(k): j = randbelow(n); while j in selected: j = randbelow(n); selected_add(j); result[i] = population[j]\<close>.
  The inner \<open>while\<close> draws again as long as the position drawn was selected before. It
  need not end: on a source that keeps delivering selected positions it runs for ever.
  \<open>redraw\<close> is that loop; its value \<open>None\<close> is the run that does not return.
\<close>

partial_function (option) redraw :: "nat \<Rightarrow> nat set \<Rightarrow> nat \<Rightarrow> rng \<Rightarrow> (nat \<times> rng) option" where
  "redraw n selected j r =
     (if j \<in> selected
      then (case randbelow n r of (j', r') \<Rightarrow> redraw n selected j' r')
      else Some (j, r))"

declare redraw.simps [code]

fun sample_set_loop ::
  "'a list \<Rightarrow> nat \<Rightarrow> nat set \<Rightarrow> nat \<Rightarrow> rng \<Rightarrow> ('a list \<times> rng) option" where
  "sample_set_loop population n selected 0 r = Some ([], r)"
| "sample_set_loop population n selected (Suc k) r =
     (case randbelow n r of (j0, r0) \<Rightarrow>
        (case redraw n selected j0 r0 of
           None \<Rightarrow> None
         | Some (j, r1) \<Rightarrow>
             (case sample_set_loop population n (insert j selected) k r1 of
                None \<Rightarrow> None
              | Some (rest, r2) \<Rightarrow> Some (population ! j # rest, r2))))"

text \<open>A step of the program either does not return (\<open>None\<close>), raises (\<open>Some (Inl e)\<close>) or
  returns a value (\<open>Some (Inr x)\<close>).\<close>

definition py_sample ::
  "'a list \<Rightarrow> nat \<Rightarrow> rng \<Rightarrow> (py_error + ('a list \<times> rng)) option" where
  "py_sample population k r =
     (let n = length population in
      if \<not> k \<le> n then Some (Inl ValueError)
      else if n \<le> sample_setsize k then Some (Inr (sample_loop population n k r))
      else map_option Inr (sample_set_loop population n {} k r))"

text \<open>
  \<open>rng.shuffle(x)\<close>:
  \<^verbatim>\<open>for i in reversed(range(1, len(x))): j = randbelow(i + 1); x[i], x[j] = x[j], x[i]\<close>.
\<close>

fun shuffle_loop :: "'a list \<Rightarrow> nat \<Rightarrow> rng \<Rightarrow> 'a list \<times> rng" where
  "shuffle_loop x 0 r = (x, r)"
| "shuffle_loop x (Suc i) r =
     (case randbelow (Suc i + 1) r of (j, r') \<Rightarrow>
        shuffle_loop (x[Suc i := x ! j, j := x ! Suc i]) i r')"

definition py_shuffle :: "'a list \<Rightarrow> rng \<Rightarrow> 'a list \<times> rng" where
  "py_shuffle x r = shuffle_loop x (length x - 1) r"

text \<open>\<open>xs.index(v)\<close>: the first position of \<open>v\<close>, \<open>ValueError\<close> when there is none.\<close>

fun py_index :: "'a list \<Rightarrow> 'a \<Rightarrow> py_error + nat" where
  "py_index [] v = Inl ValueError"
| "py_index (x # xs) v =
     (if x = v then Inr 0
      else (case py_index xs v of Inl e \<Rightarrow> Inl e | Inr i \<Rightarrow> Inr (Suc i)))"

text \<open>The keys of \<open>dict.fromkeys(xs)\<close>, in insertion order: a key is inserted once, where
  it first occurs.\<close>

definition dict_fromkeys :: "'a list \<Rightarrow> 'a list" where
  "dict_fromkeys xs = foldl (\<lambda>keys x. if x \<in> set keys then keys else keys @ [x]) [] xs"

text \<open>Sequencing of steps: the first that raises or does not return ends the run.\<close>

definition and_then ::
  "(py_error + 'a) option \<Rightarrow> ('a \<Rightarrow> (py_error + 'b) option) \<Rightarrow> (py_error + 'b) option" where
  "and_then m f =
     (case m of None \<Rightarrow> None | Some (Inl e) \<Rightarrow> Some (Inl e) | Some (Inr x) \<Rightarrow> f x)"

section \<open>Question generation\<close>

text \<open>The question dictionary, with its seven keys (the key \<open>text\<close> is the field
  \<open>q_text\<close>). Positions and counts are natural numbers.\<close>

record question =
  entry_index :: nat
  q_type :: string
  prompt :: string
  q_text :: string
  options :: "string list"
  correct_answer :: string
  correct_index :: nat

text \<open>What the generator's loop changes: the question list, the skip counter and the
  random source.\<close>

record gen_locals =
  questions :: "question list"
  skipped :: nat
  rng_state :: rng

definition sample_distractors ::
  "string list \<Rightarrow> string \<Rightarrow> nat \<Rightarrow> rng
     \<Rightarrow> (py_error + (string list option \<times> rng)) option" where
  "sample_distractors pool correct need r =
     (let candidates = filter (\<lambda>p. p \<noteq> correct) pool in
      if length candidates < need then Some (Inr (None, r))
      else and_then (py_sample candidates need r) (\<lambda>(d, r'). Some (Inr (Some d, r'))))"

definition make_question ::
  "nat \<Rightarrow> string \<Rightarrow> string \<Rightarrow> string \<Rightarrow> string \<Rightarrow> string list \<Rightarrow> nat
     \<Rightarrow> gen_locals \<Rightarrow> gen_locals" where
  "make_question entry_idx qt prompt_val text_val correct_value opts correct_idx st =
     st\<lparr>questions := questions st @
          [\<lparr>entry_index = entry_idx, q_type = qt, prompt = prompt_val, q_text = text_val,
            options = opts, correct_answer = correct_value, correct_index = correct_idx\<rparr>]\<rparr>"

text \<open>
  One of the six blocks of the loop body. The source writes the block out six times; the
  copies differ in the two values tested, the pool, the type tag and the text, which are
  the parameters here. \<open>sample_distractors\<close> is always called without \<open>need\<close>, so with
  its default 3.
\<close>

definition direction_block ::
  "nat \<Rightarrow> string \<Rightarrow> string \<Rightarrow> string \<Rightarrow> string \<Rightarrow> string list \<Rightarrow> gen_locals
     \<Rightarrow> (py_error + gen_locals) option" where
  "direction_block idx qt src_val tgt_val text_val pool st =
     (if src_val \<noteq> [] \<and> tgt_val \<noteq> [] then
        and_then (sample_distractors pool tgt_val 3 (rng_state st)) (\<lambda>(sampled, r).
          (case sampled of
             None \<Rightarrow> Some (Inr (st\<lparr>skipped := skipped st + 1, rng_state := r\<rparr>))
           | Some distractors \<Rightarrow>
               (case py_shuffle (distractors @ [tgt_val]) r of (opts, r') \<Rightarrow>
                  (case py_index opts tgt_val of
                     Inl e \<Rightarrow> Some (Inl e)
                   | Inr ci \<Rightarrow>
                       Some (Inr (make_question idx qt src_val text_val tgt_val opts ci
                                    (st\<lparr>rng_state := r'\<rparr>)))))))
      else Some (Inr st))"

definition quoted :: "string \<Rightarrow> string" where
  "quoted s = [CHR 0x27] @ s @ [CHR 0x27]"

definition entry_body ::
  "string list \<Rightarrow> string list \<Rightarrow> string list \<Rightarrow> nat \<Rightarrow> entry \<Rightarrow> gen_locals
     \<Rightarrow> (py_error + gen_locals) option" where
  "entry_body kanji_pool_unique kana_pool_unique meaning_pool_unique idx e st0 =
     (case e of (kanji, kana, meaning) \<Rightarrow>
        let kanji_val = py_strip kanji;
            kana_val = py_strip kana;
            meaning_val = py_strip meaning
        in
        and_then (direction_block idx ''kanji_to_hiragana'' kanji_val kana_val
                    (''What is the hiragana reading of '' @ quoted kanji_val @ ''?'')
                    kana_pool_unique st0) (\<lambda>st1.
        and_then (direction_block idx ''kanji_to_meaning'' kanji_val meaning_val
                    (''What does '' @ quoted kanji_val @ '' mean?'')
                    meaning_pool_unique st1) (\<lambda>st2.
        and_then (direction_block idx ''kana_to_meaning'' kana_val meaning_val
                    (''What does '' @ quoted kana_val @ '' mean?'')
                    meaning_pool_unique st2) (\<lambda>st3.
        and_then (direction_block idx ''kana_to_kanji'' kana_val kanji_val
                    (''Which kanji corresponds to '' @ quoted kana_val @ ''?'')
                    kanji_pool_unique st3) (\<lambda>st4.
        and_then (direction_block idx ''meaning_to_kanji'' meaning_val kanji_val
                    (''Which kanji represents '' @ quoted meaning_val @ ''?'')
                    kanji_pool_unique st4) (\<lambda>st5.
        direction_block idx ''meaning_to_kana'' meaning_val kana_val
                    (''What is the hiragana for '' @ quoted meaning_val @ ''?'')
                    kana_pool_unique st5))))))"

text \<open>\<open>for idx, (kanji, kana, meaning) in enumerate(entries, start=1)\<close>.\<close>

fun entries_loop ::
  "string list \<Rightarrow> string list \<Rightarrow> string list \<Rightarrow> nat \<Rightarrow> entry list \<Rightarrow> gen_locals
     \<Rightarrow> (py_error + gen_locals) option" where
  "entries_loop kpu hpu mpu idx [] st = Some (Inr st)"
| "entries_loop kpu hpu mpu idx (e # es) st =
     and_then (entry_body kpu hpu mpu idx e st) (entries_loop kpu hpu mpu (Suc idx) es)"

text \<open>\<open>[k for k in dict.fromkeys(pool) if k]\<close>.\<close>

definition unique_pool :: "string list \<Rightarrow> string list" where
  "unique_pool pool = filter (\<lambda>k. k \<noteq> []) (dict_fromkeys pool)"

text \<open>
  \<open>generate_all_questions\<close>. \<open>rng_arg\<close> is the \<open>rng\<close> argument (\<open>None\<close> when it is left
  out) and \<open>ambient\<close> the module-level generator used in that case. A run that returns
  gives the returned pair \<open>(questions, skipped)\<close> together with the random source as the
  run leaves it. \<open>min_options\<close> is a parameter of the source that its body never reads.
\<close>

definition generate_all_questions ::
  "entry list \<Rightarrow> string list \<Rightarrow> string list \<Rightarrow> string list \<Rightarrow> int \<Rightarrow> rng option \<Rightarrow> rng
     \<Rightarrow> (py_error + ((question list \<times> nat) \<times> rng)) option" where
  "generate_all_questions entries kanji_pool_arg kana_pool_arg meaning_pool_arg min_options
       rng_arg ambient =
     (let r = (case rng_arg of None \<Rightarrow> ambient | Some given \<Rightarrow> given);
          kanji_pool_unique = unique_pool kanji_pool_arg;
          kana_pool_unique = unique_pool kana_pool_arg;
          meaning_pool_unique = unique_pool meaning_pool_arg
      in and_then
           (entries_loop kanji_pool_unique kana_pool_unique meaning_pool_unique 1 entries
              \<lparr>questions = [], skipped = 0, rng_state = r\<rparr>)
           (\<lambda>st. Some (Inr ((questions st, skipped st), rng_state st))))"

section \<open>The six directions, in the words of the specification\<close>

text \<open>
  The three fields of an entry, and a direction as a pair (source field, target field).
  \<open>field_raw\<close> is the field as the entry holds it, \<open>field_val\<close> the value the generator
  works with (\<open>kanji_val\<close>, \<open>kana_val\<close>, \<open>meaning_val\<close>: the field, trimmed).
\<close>

datatype field = Kanji | Kana | Meaning

type_synonym direction = "field \<times> field"

fun field_raw :: "field \<Rightarrow> entry \<Rightarrow> string" where
  "field_raw Kanji (kanji, kana, meaning) = kanji"
| "field_raw Kana (kanji, kana, meaning) = kana"
| "field_raw Meaning (kanji, kana, meaning) = meaning"

definition field_val :: "field \<Rightarrow> entry \<Rightarrow> string" where
  "field_val f e = py_strip (field_raw f e)"

text \<open>The fixed order in which the directions are attempted.\<close>

definition six_directions :: "direction list" where
  "six_directions =
     [(Kanji, Kana), (Kanji, Meaning), (Kana, Meaning),
      (Kana, Kanji), (Meaning, Kanji), (Meaning, Kana)]"

fun type_tag :: "direction \<Rightarrow> string" where
  "type_tag (Kanji, Kana) = ''kanji_to_hiragana''"
| "type_tag (Kanji, Meaning) = ''kanji_to_meaning''"
| "type_tag (Kana, Meaning) = ''kana_to_meaning''"
| "type_tag (Kana, Kanji) = ''kana_to_kanji''"
| "type_tag (Meaning, Kanji) = ''meaning_to_kanji''"
| "type_tag (Meaning, Kana) = ''meaning_to_kana''"
| "type_tag (Kanji, Kanji) = []"
| "type_tag (Kana, Kana) = []"
| "type_tag (Meaning, Meaning) = []"

fun question_text :: "direction \<Rightarrow> string \<Rightarrow> string" where
  "question_text (Kanji, Kana) v = ''What is the hiragana reading of '' @ quoted v @ ''?''"
| "question_text (Kanji, Meaning) v = ''What does '' @ quoted v @ '' mean?''"
| "question_text (Kana, Meaning) v = ''What does '' @ quoted v @ '' mean?''"
| "question_text (Kana, Kanji) v = ''Which kanji corresponds to '' @ quoted v @ ''?''"
| "question_text (Meaning, Kanji) v = ''Which kanji represents '' @ quoted v @ ''?''"
| "question_text (Meaning, Kana) v = ''What is the hiragana for '' @ quoted v @ ''?''"
| "question_text (Kanji, Kanji) v = []"
| "question_text (Kana, Kana) v = []"
| "question_text (Meaning, Meaning) v = []"

text \<open>The pool of a field, out of the three pools (kanji, kana, meaning).\<close>

fun pool_for :: "field \<Rightarrow> string list \<times> string list \<times> string list \<Rightarrow> string list" where
  "pool_for Kanji (kp, hp, mp) = kp"
| "pool_for Kana (kp, hp, mp) = hp"
| "pool_for Meaning (kp, hp, mp) = mp"

text \<open>The position of a type tag in the fixed order of directions (6 for any other
  string).\<close>

definition direction_rank :: "string \<Rightarrow> nat" where
  "direction_rank t =
     (if t = ''kanji_to_hiragana'' then 0
      else if t = ''kanji_to_meaning'' then 1
      else if t = ''kana_to_meaning'' then 2
      else if t = ''kana_to_kanji'' then 3
      else if t = ''meaning_to_kanji'' then 4
      else if t = ''meaning_to_kana'' then 5
      else 6)"

text \<open>
  What is to happen to one direction of one entry, stated on the pools as the caller
  passes them: nothing when the source or the target value is empty; a counted skip
  when fewer than three distinct non-empty pool values differ from the correct value;
  a question otherwise.
\<close>

datatype outcome = Silent | Skipped | Emitted

definition eligible :: "string list \<Rightarrow> string \<Rightarrow> string set" where
  "eligible pool correct = set pool - {[], correct}"

definition direction_outcome ::
  "string list \<times> string list \<times> string list \<Rightarrow> entry \<Rightarrow> direction \<Rightarrow> outcome" where
  "direction_outcome pools e d =
     (if field_val (fst d) e = [] \<or> field_val (snd d) e = [] then Silent
      else if card (eligible (pool_for (snd d) pools) (field_val (snd d) e)) < 3 then Skipped
      else Emitted)"

text \<open>The (entry position, direction) pairs that are to give a question, in the order of
  the loop, and the number of counted skips.\<close>

fun emission_plan ::
  "string list \<times> string list \<times> string list \<Rightarrow> nat \<Rightarrow> entry list
     \<Rightarrow> (nat \<times> entry \<times> direction) list" where
  "emission_plan pools idx [] = []"
| "emission_plan pools idx (e # es) =
     map (\<lambda>d. (idx, e, d)) (filter (\<lambda>d. direction_outcome pools e d = Emitted) six_directions)
     @ emission_plan pools (Suc idx) es"

definition skip_total ::
  "string list \<times> string list \<times> string list \<Rightarrow> entry list \<Rightarrow> nat" where
  "skip_total pools entries =
     sum_list (map (\<lambda>e. length (filter (\<lambda>d. direction_outcome pools e d = Skipped)
                                   six_directions)) entries)"

text \<open>The order of the output: by entry position, then by the rank of the direction.\<close>

definition question_before :: "question \<Rightarrow> question \<Rightarrow> bool" where
  "question_before q q' =
     (entry_index q < entry_index q'
      \<or> (entry_index q = entry_index q'
          \<and> direction_rank (q_type q) < direction_rank (q_type q')))"

text \<open>The loop body as a walk over a list of directions.\<close>

fun run_directions ::
  "string list \<times> string list \<times> string list \<Rightarrow> nat \<Rightarrow> entry \<Rightarrow> direction list \<Rightarrow> gen_locals
     \<Rightarrow> (py_error + gen_locals) option" where
  "run_directions ps idx e [] st = Some (Inr st)"
| "run_directions ps idx e (d # ds) st =
     and_then (direction_block idx (type_tag d) (field_val (fst d) e) (field_val (snd d) e)
                 (question_text d (field_val (fst d) e)) (pool_for (snd d) ps) st)
       (run_directions ps idx e ds)"

text \<open>Two random sources that will deliver the same numbers from where they stand.\<close>

definition same_draws :: "rng \<Rightarrow> rng \<Rightarrow> bool" where
  "same_draws r1 r2 = (\<forall>i. draws r1 (pos r1 + i) = draws r2 (pos r2 + i))"

text \<open>Two states of the loop that agree on what the run has produced so far and whose
  random sources will deliver the same numbers.\<close>

definition state_same :: "gen_locals \<Rightarrow> gen_locals \<Rightarrow> bool" where
  "state_same s1 s2 =
     (questions s1 = questions s2 \<and> skipped s1 = skipped s2
      \<and> same_draws (rng_state s1) (rng_state s2))"

text \<open>The pools the generator samples from, given the pools it receives.\<close>

fun unique_pools ::
  "string list \<times> string list \<times> string list \<Rightarrow> string list \<times> string list \<times> string list" where
  "unique_pools (kp, hp, mp) = (unique_pool kp, unique_pool hp, unique_pool mp)"

text \<open>What a question emitted for an entry position, an entry and a direction looks like;
  \<open>ps\<close> are the pools sampled from.\<close>

fun question_ok ::
  "string list \<times> string list \<times> string list \<Rightarrow> question \<Rightarrow> nat \<times> entry \<times> direction \<Rightarrow> bool" where
  "question_ok ps q (idx, e, d) =
     (entry_index q = idx \<and> q_type q = type_tag d
      \<and> prompt q = field_val (fst d) e
      \<and> q_text q = question_text d (field_val (fst d) e)
      \<and> correct_answer q = field_val (snd d) e
      \<and> length (options q) = 4 \<and> distinct (options q)
      \<and> correct_index q < 4 \<and> options q ! correct_index q = correct_answer q
      \<and> correct_answer q \<in> set (options q)
      \<and> set (options q) \<subseteq> insert (correct_answer q) (set (pool_for (snd d) ps))
      \<and> [] \<notin> set (options q))"

text \<open>The order of the plan: by entry position, then by the rank of the direction.\<close>

definition plan_before :: "nat \<times> entry \<times> direction \<Rightarrow> nat \<times> entry \<times> direction \<Rightarrow> bool" where
  "plan_before x y =
     (fst x < fst y
      \<or> (fst x = fst y
          \<and> direction_rank (type_tag (snd (snd x))) < direction_rank (type_tag (snd (snd y)))))"

section \<open>Text files\<close>

text \<open>
  A text file opened for reading is the text it holds, or \<open>None\<close> when the path does not
  exist. Reading translates \<open>\r\n\<close> and a lone \<open>\r\<close> to \<open>\n\<close>; iterating over the file
  gives its lines, each with its terminating \<open>\n\<close> (the last line may have none).
\<close>

fun universal_newlines :: "string \<Rightarrow> string" where
  "universal_newlines [] = []"
| "universal_newlines [c] = (if c = CHR 0x0D then [CHR 0x0A] else [c])"
| "universal_newlines (c # c' # cs) =
     (if c = CHR 0x0D \<and> c' = CHR 0x0A then CHR 0x0A # universal_newlines cs
      else if c = CHR 0x0D then CHR 0x0A # universal_newlines (c' # cs)
      else c # universal_newlines (c' # cs))"

fun split_keepends :: "string \<Rightarrow> string \<Rightarrow> string list" where
  "split_keepends cur [] = (if cur = [] then [] else [cur])"
| "split_keepends cur (c # cs) =
     (if c = CHR 0x0A then (cur @ [c]) # split_keepends [] cs
      else split_keepends (cur @ [c]) cs)"

definition file_lines :: "string \<Rightarrow> string list" where
  "file_lines text = split_keepends [] (universal_newlines text)"

section \<open>The level header\<close>

definition level_map :: "(string \<times> int) list" where
  "level_map = [(''n5'', 1), (''n4'', 2), (''n3'', 3), (''n2'', 4), (''n1'', 5)]"

text \<open>The loop of \<open>read_level_from_txt\<close>: blank lines are passed over; the first other
  line decides (the \<open>break\<close> leads to the \<open>raise\<close> after the loop).\<close>

fun read_level_loop :: "string list \<Rightarrow> py_error + int" where
  "read_level_loop [] = Inl ValueError"
| "read_level_loop (raw # rest) =
     (let line = py_lower (py_strip raw) in
      if line = [] then read_level_loop rest
      else (case map_of level_map line of
              Some level \<Rightarrow> Inr level
            | None \<Rightarrow> Inl ValueError))"

definition read_level_from_txt :: "string option \<Rightarrow> py_error + int" where
  "read_level_from_txt file =
     (case file of
        None \<Rightarrow> Inl FileNotFoundError
      | Some text \<Rightarrow> read_level_loop (file_lines text))"

section \<open>Parsing the fixed file\<close>

text \<open>
  \<open>_ENTRY_LINE_RE.match(line)\<close> for the pattern \<^verbatim>\<open>^\s*(\d+)\.\s*(.*)$\<close>: leading
  whitespace, a non-empty run of digits (as long as possible, since a dot must follow),
  a dot, whitespace, and the rest up to the end of the string. \<open>.\<close> does not match
  \<open>\n\<close>, and \<open>$\<close> also matches before a final \<open>\n\<close>. The result is the pair of groups,
  or \<open>None\<close> when there is no match.
\<close>

definition entry_line_match :: "string \<Rightarrow> (string \<times> string) option" where
  "entry_line_match line =
     (let s1 = dropWhile py_isspace line;
          digits = takeWhile py_isdigit s1;
          s2 = dropWhile py_isdigit s1
      in if digits = [] then None
         else (case s2 of
                 [] \<Rightarrow> None
               | c # s3 \<Rightarrow>
                   if c \<noteq> CHR ''.'' then None
                   else (let g = dropWhile py_isspace s3;
                             body = (if g \<noteq> [] \<and> last g = CHR 0x0A then butlast g else g)
                         in if CHR 0x0A \<in> set body then None else Some (digits, body))))"

text \<open>\<open>s.split(sep, maxsplit)\<close> for a one-character separator.\<close>

fun py_split :: "char \<Rightarrow> nat \<Rightarrow> string \<Rightarrow> string list" where
  "py_split sep 0 s = [s]"
| "py_split sep (Suc n) s =
     (if sep \<in> set s
      then takeWhile (\<lambda>c. c \<noteq> sep) s # py_split sep n (tl (dropWhile (\<lambda>c. c \<noteq> sep) s))
      else [s])"

text \<open>\<open>while len(parts) < 3: parts.append("")\<close>.\<close>

function pad_parts :: "string list \<Rightarrow> string list" where
  "pad_parts parts = (if length parts < 3 then pad_parts (parts @ [[]]) else parts)"
  by pat_completeness auto
termination
  by (relation "measure (\<lambda>parts. 3 - length parts)") auto

declare pad_parts.simps [simp del]

text \<open>The body of the loop over the lines: \<open>Inr None\<close> when the line is passed over,
  \<open>Inr (Some entry)\<close> when an entry is appended.\<close>

definition parse_line :: "string \<Rightarrow> py_error + entry option" where
  "parse_line raw =
     (let line = py_strip raw in
      if line = [] then Inr None
      else (case entry_line_match line of
              None \<Rightarrow> Inr None
            | Some (num, group2) \<Rightarrow>
                (let rest = py_strip group2;
                     parts = pad_parts (map py_strip (py_split CHR '','' 2 rest))
                 in (case parts of
                       kanji # kana # meaning # _ \<Rightarrow> Inr (Some (kanji, kana, meaning))
                     | _ \<Rightarrow> Inl IndexError))))"

fun parse_loop :: "string list \<Rightarrow> entry list \<Rightarrow> py_error + entry list" where
  "parse_loop [] entries = Inr entries"
| "parse_loop (raw # rest) entries =
     (case parse_line raw of
        Inl e \<Rightarrow> Inl e
      | Inr None \<Rightarrow> parse_loop rest entries
      | Inr (Some entry) \<Rightarrow> parse_loop rest (entries @ [entry]))"

definition parse_fixed_file :: "string option \<Rightarrow> py_error + entry list" where
  "parse_fixed_file file =
     (case file of
        None \<Rightarrow> Inl FileNotFoundError
      | Some text \<Rightarrow> parse_loop (file_lines text) [])"

text \<open>
  In the words of the specification. A line is accepted when its trimmed form starts
  with an integer followed by a dot; its remainder is what follows that dot. The fields
  of a remainder: all of it when it has no comma; the two sides of its comma when it has
  one; the text before the first comma, the text between the first two commas and all
  the text after the second comma (commas included) when it has more; each trimmed, and
  a missing field is the empty string.
\<close>

definition line_accepted :: "string \<Rightarrow> bool" where
  "line_accepted raw =
     (let line = py_strip raw in
      takeWhile py_isdigit line \<noteq> []
      \<and> (case dropWhile py_isdigit line of [] \<Rightarrow> False | c # _ \<Rightarrow> c = CHR ''.''))"

definition line_remainder :: "string \<Rightarrow> string" where
  "line_remainder raw = py_strip (tl (dropWhile py_isdigit (py_strip raw)))"

definition split_fields :: "string \<Rightarrow> entry \<Rightarrow> bool" where
  "split_fields r e =
     ((CHR '','' \<notin> set r \<longrightarrow> e = (py_strip r, [], []))
      \<and> (\<forall>a b. r = a @ CHR '','' # b \<and> CHR '','' \<notin> set a \<and> CHR '','' \<notin> set b
             \<longrightarrow> e = (py_strip a, py_strip b, []))
      \<and> (\<forall>a b c. r = a @ CHR '','' # b @ CHR '','' # c \<and> CHR '','' \<notin> set a \<and> CHR '','' \<notin> set b
             \<longrightarrow> e = (py_strip a, py_strip b, py_strip c)))"

section \<open>Example data\<close>

definition example_rng :: rng where
  "example_rng = \<lparr>draws = (\<lambda>i. i), pos = 0\<rparr>"

definition example_entries :: "entry list" where
  "example_entries =
     [(''k1'', ''a1'', []), (''k2'', [], []), (''k3'', [], []), (''k4'', [], [])]"

text \<open>A second random source: it stands at position 2 and delivers from there what
  \<open>example_rng\<close> delivers from its start.\<close>

definition example_rng_shifted :: rng where
  "example_rng_shifted = \<lparr>draws = (\<lambda>i. i - 2), pos = 2\<rparr>"

text \<open>A file of four lines: a comment, an entry whose meaning holds a comma, an entry
  with one field only, and a line that is not numbered.\<close>

definition example_file :: string where
  "example_file =
     ''# list'' @ [CHR 0x0A] @ ''12. a , b,c, d'' @ [CHR 0x0D, CHR 0x0A]
     @ '' 3.x'' @ [CHR 0x0A] @ ''foo, bar''"

text \<open>
  A random source never stalls when, from any position on and for any range \<open>n\<close>, it
  sooner or later delivers a number outside any given set of fewer than \<open>n\<close> positions.
  On such a source the redraw loop of \<open>random.sample\<close> ends. (The source that counts
  0, 1, 2, ... is one; a source that repeats one number is not.)
\<close>

definition never_stalls :: "rng \<Rightarrow> bool" where
  "never_stalls r =
     (\<forall>n sel p. finite sel \<and> card sel < n \<longrightarrow> (\<exists>i. draws r (p + i) mod n \<notin> sel))"

text \<open>
  What is proved of a step of the run, on a random source \<open>r\<close>: it does not raise, it
  returns when the source never stalls, and what it returns satisfies \<open>Q\<close>.
\<close>

definition run_ok :: "rng \<Rightarrow> (py_error + 'a) option \<Rightarrow> ('a \<Rightarrow> bool) \<Rightarrow> bool" where
  "run_ok r m Q =
     ((never_stalls r \<longrightarrow> m \<noteq> None) \<and> (\<forall>res. m = Some res \<longrightarrow> (\<exists>x. res = Inr x \<and> Q x)))"

text \<open>
  A stretch of the loop that takes the state \<open>st\<close> to \<open>st'\<close>: it appends questions that
  follow \<open>plan\<close>, adds \<open>n\<close> to the skip counter, and leaves a random source that delivers
  the numbers of \<open>r\<close>.
\<close>

definition produced ::
  "string list \<times> string list \<times> string list \<Rightarrow> rng \<Rightarrow> gen_locals
     \<Rightarrow> (nat \<times> entry \<times> direction) list \<Rightarrow> nat \<Rightarrow> gen_locals \<Rightarrow> bool" where
  "produced ps r st plan n st' =
     (draws (rng_state st') = draws r \<and> skipped st' = skipped st + n
      \<and> (\<exists>qs. questions st' = questions st @ qs \<and> list_all2 (question_ok ps) qs plan))"

text \<open>A kanji pool of 23 values, and a vocabulary that has them: with it a kanji question
  has 22 candidate distractors, one more than the pool loop of \<open>random.sample\<close> takes.\<close>

definition example_kanji :: "string list" where
  "example_kanji =
     [''k00'', ''k01'', ''k02'', ''k03'', ''k04'', ''k05'', ''k06'', ''k07'', ''k08'', ''k09'',
      ''k10'', ''k11'', ''k12'', ''k13'', ''k14'', ''k15'', ''k16'', ''k17'', ''k18'', ''k19'',
      ''k20'', ''k21'', ''k22'']"

definition example_vocabulary :: "entry list" where
  "example_vocabulary = (''k00'', ''a1'', []) # map (\<lambda>k. (k, [], [])) (tl example_kanji)"

text \<open>A third random source, which delivers every number twice: 0, 0, 1, 1, 2, 2, ...\<close>

definition example_rng_repeating :: rng where
  "example_rng_repeating = \<lparr>draws = (\<lambda>i. i div 2), pos = 0\<rparr>"

text \<open>A fourth random source: it stands at position 4 and delivers from there what
  \<open>example_rng_repeating\<close> delivers from its start.\<close>

definition example_rng_repeating_shifted :: rng where
  "example_rng_repeating_shifted = \<lparr>draws = (\<lambda>i. (i - 4) div 2), pos = 4\<rparr>"

section \<open>Properties of the pool builder\<close>

lemma build_pools_step_fields:
  assumes "seen_kanji s = set (kanji_pool s)"
    and "seen_kana s = set (kana_pool s)"
    and "seen_meaning s = set (meaning_pool s)"
  shows "kanji_pool (build_pools_step s (a, b, c)) = add_unique (kanji_pool s) a"
    and "kana_pool (build_pools_step s (a, b, c)) = add_unique (kana_pool s) b"
    and "meaning_pool (build_pools_step s (a, b, c)) = add_unique (meaning_pool s) c"
    and "seen_kanji (build_pools_step s (a, b, c)) = set (add_unique (kanji_pool s) a)"
    and "seen_kana (build_pools_step s (a, b, c)) = set (add_unique (kana_pool s) b)"
    and "seen_meaning (build_pools_step s (a, b, c)) = set (add_unique (meaning_pool s) c)"
  using assms by (auto simp: build_pools_step_def add_unique_def Let_def)

lemma build_pools_foldl:
  assumes "seen_kanji s = set (kanji_pool s)"
    and "seen_kana s = set (kana_pool s)"
    and "seen_meaning s = set (meaning_pool s)"
  shows "kanji_pool (foldl build_pools_step s es) = foldl add_unique (kanji_pool s) (map fst es)
       \<and> kana_pool (foldl build_pools_step s es)
           = foldl add_unique (kana_pool s) (map (fst \<circ> snd) es)
       \<and> meaning_pool (foldl build_pools_step s es)
           = foldl add_unique (meaning_pool s) (map (snd \<circ> snd) es)"
  using assms
proof (induction es arbitrary: s)
  case Nil
  then show ?case by simp
next
  case (Cons e es)
  obtain a b c where e: "e = (a, b, c)" by (cases e) auto
  have "seen_kanji (build_pools_step s e) = set (kanji_pool (build_pools_step s e))"
    "seen_kana (build_pools_step s e) = set (kana_pool (build_pools_step s e))"
    "seen_meaning (build_pools_step s e) = set (meaning_pool (build_pools_step s e))"
    using build_pools_step_fields [OF Cons.prems] unfolding e by simp_all
  from Cons.IH [OF this] show ?case
    using build_pools_step_fields(1-3) [OF Cons.prems] unfolding e by simp
qed

lemma set_foldl_add_unique:
  "set (foldl add_unique acc vs) = set acc \<union> (set vs - {[]})"
  by (induction vs arbitrary: acc) (auto simp: add_unique_def)

lemma first_appearances_append1:
  "first_appearances (ys @ [w])
     = first_appearances ys @ (if w \<noteq> [] \<and> w \<notin> set ys then [w] else [])"
proof -
  let ?P = "\<lambda>zs i. zs ! i \<noteq> [] \<and> zs ! i \<notin> set (take i zs)"
  have keep: "filter (?P (ys @ [w])) [0..<length ys] = filter (?P ys) [0..<length ys]"
    by (rule filter_cong) (auto simp: nth_append)
  have same: "map (\<lambda>i. (ys @ [w]) ! i) (filter (?P ys) [0..<length ys])
            = map (\<lambda>i. ys ! i) (filter (?P ys) [0..<length ys])"
    by (rule map_cong) (auto simp: nth_append)
  have up: "[0..<length (ys @ [w])] = [0..<length ys] @ [length ys]" by simp
  have "first_appearances (ys @ [w])
      = map (\<lambda>i. (ys @ [w]) ! i) (filter (?P (ys @ [w])) [0..<length ys])
        @ map (\<lambda>i. (ys @ [w]) ! i) (filter (?P (ys @ [w])) [length ys])"
    unfolding first_appearances_def up filter_append map_append ..
  also have "map (\<lambda>i. (ys @ [w]) ! i) (filter (?P (ys @ [w])) [0..<length ys])
      = first_appearances ys"
    unfolding keep same first_appearances_def ..
  also have "map (\<lambda>i. (ys @ [w]) ! i) (filter (?P (ys @ [w])) [length ys])
      = (if w \<noteq> [] \<and> w \<notin> set ys then [w] else [])"
    by simp
  finally show ?thesis .
qed

lemma set_first_appearances: "set (first_appearances vs) = set vs - {[]}"
proof (induction vs rule: rev_induct)
  case Nil
  show ?case by (simp add: first_appearances_def)
next
  case (snoc v vs)
  then show ?case unfolding first_appearances_append1 by auto
qed

lemma first_appearances_snoc:
  "first_appearances (vs @ [v]) = add_unique (first_appearances vs) v"
  unfolding first_appearances_append1 add_unique_def set_first_appearances by auto

lemma foldl_add_unique_first_appearances:
  "foldl add_unique [] vs = first_appearances vs"
proof (induction vs rule: rev_induct)
  case Nil
  show ?case by (simp add: first_appearances_def)
next
  case (snoc v vs)
  then show ?case using first_appearances_snoc [of vs v] by simp
qed

lemma distinct_first_appearances: "distinct (first_appearances vs)"
proof (induction vs rule: rev_induct)
  case Nil
  show ?case by (simp add: first_appearances_def)
next
  case (snoc v vs)
  then show ?case
    using first_appearances_snoc [of vs v] by (auto simp: add_unique_def)
qed

lemma length_first_appearances: "length (first_appearances vs) \<le> length vs"
proof -
  have "length (first_appearances vs)
      \<le> length [0..<length vs]"
    unfolding first_appearances_def length_map by (rule length_filter_le)
  then show ?thesis by simp
qed

lemma build_pools_eq:
  "build_pools entries =
     (first_appearances (map fst entries),
      first_appearances (map (fst \<circ> snd) entries),
      first_appearances (map (snd \<circ> snd) entries))"
proof -
  have "seen_kanji build_pools_init = set (kanji_pool build_pools_init)"
    "seen_kana build_pools_init = set (kana_pool build_pools_init)"
    "seen_meaning build_pools_init = set (meaning_pool build_pools_init)"
    by (simp_all add: build_pools_init_def)
  from build_pools_foldl [OF this, of entries] show ?thesis
    by (simp add: build_pools_def Let_def build_pools_init_def
        foldl_add_unique_first_appearances)
qed

lemma count_list_distinct:
  "distinct xs \<Longrightarrow> count_list xs v = (if v \<in> set xs then 1 else 0)"
  by (induction xs) auto

lemma count_list_first_appearances:
  "count_list (first_appearances vs) v = (if v \<in> set vs \<and> v \<noteq> [] then 1 else 0)"
  using count_list_distinct [OF distinct_first_appearances, of vs v]
  by (simp add: set_first_appearances)

text \<open>
  C6. For every entry list, \<open>build_pools\<close> returns for each of the three fields the
  non-empty values of that field at the positions of their first appearance, in entry
  order: every distinct non-empty value of the field occurs exactly once in its pool and
  no other value occurs at all (in particular not the empty string), so a pool is never
  longer than the entry list; the empty entry list gives three empty pools. The function
  only reads its argument: it is a pure function of the entry list.
\<close>

theorem build_pools_contract:
  "(case build_pools entries of (kp, hp, mp) \<Rightarrow>
      kp = first_appearances (map fst entries)
    \<and> hp = first_appearances (map (fst \<circ> snd) entries)
    \<and> mp = first_appearances (map (snd \<circ> snd) entries)
    \<and> (\<forall>v. count_list kp v = (if v \<in> set (map fst entries) \<and> v \<noteq> [] then 1 else 0))
    \<and> (\<forall>v. count_list hp v
           = (if v \<in> set (map (fst \<circ> snd) entries) \<and> v \<noteq> [] then 1 else 0))
    \<and> (\<forall>v. count_list mp v
           = (if v \<in> set (map (snd \<circ> snd) entries) \<and> v \<noteq> [] then 1 else 0))
    \<and> distinct kp \<and> distinct hp \<and> distinct mp
    \<and> [] \<notin> set kp \<and> [] \<notin> set hp \<and> [] \<notin> set mp
    \<and> length kp \<le> length entries \<and> length hp \<le> length entries
    \<and> length mp \<le> length entries)
   \<and> build_pools [] = ([], [], [])"
proof -
  have len: "length (first_appearances (map f entries)) \<le> length entries"
    for f :: "entry \<Rightarrow> string"
    using length_first_appearances [of "map f entries"] by simp
  have empty: "build_pools [] = ([], [], [])"
    by (simp add: build_pools_def build_pools_init_def)
  show ?thesis
    unfolding build_pools_eq [of entries] prod.case
    using len empty
    by (simp only: count_list_first_appearances distinct_first_appearances
        set_first_appearances simp_thms) simp
qed

theorem build_pools_contract_witness:
  "build_pools [(''k1'', ''a'', ''water''), (''k2'', [], ''water''), (''k1'', ''b'', ''fire'')]
     = ([''k1'', ''k2''], [''a'', ''b''], [''water'', ''fire''])"
  using build_pools_contract
    [of "[(''k1'', ''a'', ''water''), (''k2'', [], ''water''), (''k1'', ''b'', ''fire'')]"]
  by (simp add: first_appearances_def split: prod.splits)

section \<open>The level header is read from the first non-empty line\<close>

lemma map_of_level_map:
  "map_of level_map t =
     (if t = ''n5'' then Some 1 else if t = ''n4'' then Some 2 else if t = ''n3'' then Some 3
      else if t = ''n2'' then Some 4 else if t = ''n1'' then Some 5 else None)"
  by (simp add: level_map_def)

lemma read_level_loop_find:
  "read_level_loop ls =
     (case find (\<lambda>l. py_strip l \<noteq> []) ls of
        None \<Rightarrow> Inl ValueError
      | Some l \<Rightarrow>
          (case map_of level_map (py_lower (py_strip l)) of
             Some level \<Rightarrow> Inr level
           | None \<Rightarrow> Inl ValueError))"
  by (induction ls) (simp_all add: Let_def py_lower_def)

text \<open>
  C8. A line is non-empty when something is left of it after trimming (the function's
  own reading: it passes over every line that trims to nothing). For a file that
  exists, \<open>read_level_from_txt\<close> looks at the first non-empty line only: trimmed and
  lower-cased, \<open>n5\<close>, \<open>n4\<close>, \<open>n3\<close>, \<open>n2\<close>, \<open>n1\<close> give 1, 2, 3, 4, 5, and anything
  else raises \<open>ValueError\<close>, as does a file with no non-empty line.
\<close>

theorem read_level_from_txt_first_line:
  "read_level_from_txt (Some text) =
     (case find (\<lambda>l. py_strip l \<noteq> []) (file_lines text) of
        None \<Rightarrow> Inl ValueError
      | Some l \<Rightarrow>
          (let token = py_lower (py_strip l) in
           if token = ''n5'' then Inr 1
           else if token = ''n4'' then Inr 2
           else if token = ''n3'' then Inr 3
           else if token = ''n2'' then Inr 4
           else if token = ''n1'' then Inr 5
           else Inl ValueError))"
  unfolding read_level_from_txt_def option.case read_level_loop_find map_of_level_map Let_def
  by (simp split: option.splits)

theorem read_level_from_txt_first_line_witness:
  "read_level_from_txt (Some ([CHR 0x0A] @ ''  '' @ [CHR 0x0D, CHR 0x0A] @ '' N3 ''
                               @ [CHR 0x0A] @ ''n5'' @ [CHR 0x0A])) = Inr 3
   \<and> read_level_from_txt (Some (''level n3'' @ [CHR 0x0A] @ ''n5'' @ [CHR 0x0A]))
       = Inl ValueError
   \<and> read_level_from_txt (Some ('' '' @ [CHR 0x0A])) = Inl ValueError"
proof -
  have f1: "find (\<lambda>l. py_strip l \<noteq> [])
        (file_lines ([CHR 0x0A] @ ''  '' @ [CHR 0x0D, CHR 0x0A] @ '' N3 ''
                               @ [CHR 0x0A] @ ''n5'' @ [CHR 0x0A]))
      = Some ('' N3 '' @ [CHR 0x0A])"
    by code_simp
  have t1: "py_lower (py_strip ('' N3 '' @ [CHR 0x0A])) = ''n3''" by code_simp
  have f2: "find (\<lambda>l. py_strip l \<noteq> [])
        (file_lines (''level n3'' @ [CHR 0x0A] @ ''n5'' @ [CHR 0x0A]))
      = Some (''level n3'' @ [CHR 0x0A])"
    by code_simp
  have t2: "py_lower (py_strip (''level n3'' @ [CHR 0x0A])) = ''level n3''" by code_simp
  have f3: "find (\<lambda>l. py_strip l \<noteq> []) (file_lines ('' '' @ [CHR 0x0A])) = None"
    by code_simp
  show ?thesis
    unfolding read_level_from_txt_first_line f1 f2 f3 option.case Let_def t1 t2
    by simp
qed

section \<open>Lines of a file and trimming\<close>

lemma split_keepends_lines:
  "CHR 0x0A \<notin> set cur \<Longrightarrow> l \<in> set (split_keepends cur s) \<Longrightarrow> CHR 0x0A \<notin> set (butlast l)"
proof (induction s arbitrary: cur)
  case Nil
  then show ?case by (auto simp: in_set_butlastD split: if_splits)
next
  case (Cons c cs)
  show ?case
  proof (cases "c = CHR 0x0A")
    case True
    with Cons.prems(2) consider "l = cur @ [c]" | "l \<in> set (split_keepends [] cs)" by auto
    then show ?thesis
    proof cases
      case 1
      then show ?thesis using Cons.prems(1) by simp
    next
      case 2
      from Cons.IH [OF _ 2] show ?thesis by simp
    qed
  next
    case False
    with Cons.prems have "CHR 0x0A \<notin> set (cur @ [c])" "l \<in> set (split_keepends (cur @ [c]) cs)"
      by auto
    then show ?thesis by (rule Cons.IH)
  qed
qed

lemma file_lines_newline: "l \<in> set (file_lines text) \<Longrightarrow> CHR 0x0A \<notin> set (butlast l)"
  unfolding file_lines_def by (rule split_keepends_lines [of "[]"]) simp_all

lemma rev_dropWhile_takeWhile:
  "xs = rev (dropWhile P (rev xs)) @ rev (takeWhile P (rev xs))"
proof -
  have "rev xs = takeWhile P (rev xs) @ dropWhile P (rev xs)"
    by (rule takeWhile_dropWhile_id [symmetric])
  then have "rev (rev xs) = rev (takeWhile P (rev xs) @ dropWhile P (rev xs))"
    by (rule arg_cong)
  then show ?thesis by (simp only: rev_rev_ident rev_append)
qed

lemma py_strip_decomp:
  "\<exists>pre suf. s = pre @ py_strip s @ suf"
proof -
  let ?t = "dropWhile py_isspace s"
  have t: "?t = py_strip s @ rev (takeWhile py_isspace (rev ?t))"
    unfolding py_strip_def by (rule rev_dropWhile_takeWhile)
  have "s = takeWhile py_isspace s @ ?t" by simp
  with t have "s = takeWhile py_isspace s @ py_strip s @ rev (takeWhile py_isspace (rev ?t))"
    by simp
  then show ?thesis by blast
qed

lemma py_strip_last: "py_strip s \<noteq> [] \<Longrightarrow> \<not> py_isspace (last (py_strip s))"
proof -
  assume ne: "py_strip s \<noteq> []"
  let ?u = "dropWhile py_isspace (rev (dropWhile py_isspace s))"
  from ne have u: "?u \<noteq> []" by (simp add: py_strip_def)
  then have "\<not> py_isspace (hd ?u)" by (rule hd_dropWhile)
  moreover have "last (py_strip s) = hd ?u" using u by (simp add: py_strip_def last_rev)
  ultimately show ?thesis by simp
qed

lemma py_strip_hd: "py_strip s \<noteq> [] \<Longrightarrow> \<not> py_isspace (hd (py_strip s))"
proof -
  assume ne: "py_strip s \<noteq> []"
  let ?t = "dropWhile py_isspace s"
  let ?u = "dropWhile py_isspace (rev ?t)"
  from ne have u: "?u \<noteq> []" by (simp add: py_strip_def)
  have t: "?t \<noteq> []"
  proof
    assume e: "?t = []"
    have "?u = dropWhile py_isspace (rev [])" by (simp only: e)
    then show False using u by simp
  qed
  have "?t = rev ?u @ rev (takeWhile py_isspace (rev ?t))"
    by (rule rev_dropWhile_takeWhile)
  then have "hd ?t = hd (rev ?u @ rev (takeWhile py_isspace (rev ?t)))" by (rule arg_cong)
  also have "\<dots> = hd (rev ?u)" using u by simp
  finally have "hd ?t = hd (py_strip s)" by (simp add: py_strip_def)
  moreover have "\<not> py_isspace (hd ?t)" using t by (rule hd_dropWhile)
  ultimately show ?thesis by simp
qed

lemma py_strip_no_newline:
  assumes "CHR 0x0A \<notin> set (butlast raw)"
  shows "CHR 0x0A \<notin> set (py_strip raw)"
proof
  assume "CHR 0x0A \<in> set (py_strip raw)"
  then obtain u v where uv: "py_strip raw = u @ CHR 0x0A # v"
    by (auto simp: in_set_conv_decomp)
  have sp: "py_isspace (CHR 0x0A)" by (simp add: py_isspace_def)
  have v: "v \<noteq> []"
  proof
    assume "v = []"
    with uv have "last (py_strip raw) = CHR 0x0A" by simp
    moreover from uv have "py_strip raw \<noteq> []" by simp
    ultimately show False using py_strip_last [of raw] sp by simp
  qed
  from py_strip_decomp [of raw] obtain pre suf where "raw = pre @ py_strip raw @ suf"
    by blast
  with uv have "raw = (pre @ u @ [CHR 0x0A]) @ (v @ suf)" by simp
  moreover have "v @ suf \<noteq> []" using v by simp
  ultimately have "butlast raw = (pre @ u @ [CHR 0x0A]) @ butlast (v @ suf)"
    by (simp add: butlast_append)
  then have "CHR 0x0A \<in> set (butlast raw)" by simp
  with assms show False by simp
qed

lemma py_strip_dropWhile: "py_strip (dropWhile py_isspace s) = py_strip s"
  by (simp add: py_strip_def)

lemma digit_not_space: "py_isdigit c \<Longrightarrow> \<not> py_isspace c"
  by (auto simp: py_isdigit_def py_isspace_def)

lemma dot_not_digit: "\<not> py_isdigit CHR ''.''"
  by (simp add: py_isdigit_def)

section \<open>Accepted lines\<close>

lemma takeWhile_hd: "takeWhile P xs \<noteq> [] \<Longrightarrow> xs \<noteq> [] \<and> P (hd xs)"
  by (cases xs) (auto split: if_splits)

lemma dropWhile_keep: "xs \<noteq> [] \<Longrightarrow> \<not> P (hd xs) \<Longrightarrow> dropWhile P xs = xs"
  by (cases xs) auto

lemma line_accepted_iff:
  "line_accepted raw \<longleftrightarrow>
     (\<exists>digits rest. digits \<noteq> [] \<and> (\<forall>c \<in> set digits. py_isdigit c)
        \<and> py_strip raw = digits @ CHR ''.'' # rest)"
proof
  assume "line_accepted raw"
  then have tw: "takeWhile py_isdigit (py_strip raw) \<noteq> []"
    and dw: "\<exists>rest. dropWhile py_isdigit (py_strip raw) = CHR ''.'' # rest"
    by (auto simp: line_accepted_def Let_def split: list.splits)
  from dw obtain rest where r: "dropWhile py_isdigit (py_strip raw) = CHR ''.'' # rest"
    by blast
  have "py_strip raw = takeWhile py_isdigit (py_strip raw) @ dropWhile py_isdigit (py_strip raw)"
    by simp
  then have "py_strip raw = takeWhile py_isdigit (py_strip raw) @ CHR ''.'' # rest"
    unfolding r .
  moreover have "\<forall>c \<in> set (takeWhile py_isdigit (py_strip raw)). py_isdigit c"
    by (auto dest: set_takeWhileD)
  ultimately show "\<exists>digits rest. digits \<noteq> [] \<and> (\<forall>c \<in> set digits. py_isdigit c)
        \<and> py_strip raw = digits @ CHR ''.'' # rest"
    using tw by blast
next
  assume "\<exists>digits rest. digits \<noteq> [] \<and> (\<forall>c \<in> set digits. py_isdigit c)
        \<and> py_strip raw = digits @ CHR ''.'' # rest"
  then obtain digits rest where d: "digits \<noteq> []" "\<forall>c \<in> set digits. py_isdigit c"
    and l: "py_strip raw = digits @ CHR ''.'' # rest"
    by blast
  have "takeWhile py_isdigit (digits @ CHR ''.'' # rest) = digits"
    using d(2) dot_not_digit by (simp add: takeWhile_append2)
  moreover have "dropWhile py_isdigit (digits @ CHR ''.'' # rest) = CHR ''.'' # rest"
    using d(2) dot_not_digit by (simp add: dropWhile_append2)
  ultimately show "line_accepted raw"
    using d(1) by (simp add: line_accepted_def Let_def l)
qed

lemma accepted_match:
  assumes acc: "line_accepted raw" and nl: "CHR 0x0A \<notin> set (py_strip raw)"
  shows "entry_line_match (py_strip raw)
      = Some (takeWhile py_isdigit (py_strip raw),
              dropWhile py_isspace (tl (dropWhile py_isdigit (py_strip raw))))"
proof -
  let ?line = "py_strip raw"
  from acc have tw: "takeWhile py_isdigit ?line \<noteq> []"
    and dw: "\<exists>rest. dropWhile py_isdigit ?line = CHR ''.'' # rest"
    by (auto simp: line_accepted_def Let_def split: list.splits)
  from dw obtain s3 where s3: "dropWhile py_isdigit ?line = CHR ''.'' # s3" by blast
  from takeWhile_hd [OF tw] have "?line \<noteq> []" "\<not> py_isspace (hd ?line)"
    using digit_not_space by auto
  then have keep: "dropWhile py_isspace ?line = ?line" by (rule dropWhile_keep)
  let ?g = "dropWhile py_isspace s3"
  have "set ?g \<subseteq> set s3" by (auto dest: set_dropWhileD)
  moreover have "set s3 \<subseteq> set (dropWhile py_isdigit ?line)" unfolding s3 by auto
  moreover have "set (dropWhile py_isdigit ?line) \<subseteq> set ?line" by (auto dest: set_dropWhileD)
  ultimately have g: "CHR 0x0A \<notin> set ?g" using nl by blast
  then have "?g \<noteq> [] \<Longrightarrow> last ?g \<noteq> CHR 0x0A" using last_in_set [of ?g] by metis
  then have body: "(if ?g \<noteq> [] \<and> last ?g = CHR 0x0A then butlast ?g else ?g) = ?g" by auto
  show ?thesis
    unfolding entry_line_match_def Let_def keep s3 list.case body
    using tw g by simp
qed

lemma not_accepted_no_match:
  assumes na: "\<not> line_accepted raw" and ne: "py_strip raw \<noteq> []"
  shows "entry_line_match (py_strip raw) = None"
proof -
  let ?line = "py_strip raw"
  from py_strip_hd [OF ne] ne have keep: "dropWhile py_isspace ?line = ?line"
    by (simp add: dropWhile_keep)
  show ?thesis
  proof (cases "takeWhile py_isdigit ?line = []")
    case True
    show ?thesis unfolding entry_line_match_def Let_def keep True by simp
  next
    case digits: False
    show ?thesis
    proof (cases "dropWhile py_isdigit ?line")
      case Nil
      show ?thesis unfolding entry_line_match_def Let_def keep Nil by simp
    next
      case (Cons c s3)
      from na digits have "c \<noteq> CHR ''.''"
        unfolding line_accepted_def Let_def Cons by simp
      then show ?thesis unfolding entry_line_match_def Let_def keep Cons by simp
    qed
  qed
qed

section \<open>Splitting the remainder\<close>

lemma takeWhile_sep: "sep \<notin> set a \<Longrightarrow> takeWhile (\<lambda>c. c \<noteq> sep) (a @ sep # b) = a"
  by (induction a) auto

lemma dropWhile_sep: "sep \<notin> set a \<Longrightarrow> dropWhile (\<lambda>c. c \<noteq> sep) (a @ sep # b) = sep # b"
  by (induction a) auto

lemma py_split_none: "sep \<notin> set r \<Longrightarrow> py_split sep (Suc n) r = [r]"
  by simp

lemma py_split_one:
  "sep \<notin> set a \<Longrightarrow> py_split sep (Suc n) (a @ sep # b) = a # py_split sep n b"
  by (simp add: takeWhile_sep dropWhile_sep)

lemma length_py_split: "1 \<le> length (py_split sep n s) \<and> length (py_split sep n s) \<le> Suc n"
  by (induction n arbitrary: s) auto

lemma pad_parts_eq: "pad_parts ps = ps @ replicate (3 - length ps) []"
proof (induction ps rule: pad_parts.induct)
  case (1 parts)
  show ?case
  proof (cases "length parts < 3")
    case True
    then have "3 - length parts = Suc (3 - length (parts @ [[]]))" by simp
    then have "parts @ replicate (3 - length parts) []
        = (parts @ [[]]) @ replicate (3 - length (parts @ [[]])) []"
      by (simp only: replicate_Suc append_assoc append_Cons append_Nil)
    with 1 [OF True] True show ?thesis by (simp add: pad_parts.simps [of parts])
  next
    case False
    then show ?thesis by (simp add: pad_parts.simps [of parts])
  qed
qed

lemma padded_fields:
  "\<exists>kanji kana meaning.
     pad_parts (map py_strip (py_split CHR '','' 2 r)) = [kanji, kana, meaning]"
proof -
  let ?ps = "map py_strip (py_split CHR '','' 2 r)"
  from length_py_split [of "CHR '',''" 2 r] have "1 \<le> length ?ps" "length ?ps \<le> 3" by simp_all
  then have "length (pad_parts ?ps) = 3" by (simp add: pad_parts_eq)
  then show ?thesis by (auto simp: length_Suc_conv numeral_3_eq_3)
qed

lemma padded_split_fields:
  assumes "pad_parts (map py_strip (py_split CHR '','' 2 r)) = [kanji, kana, meaning]"
  shows "split_fields r (kanji, kana, meaning)"
proof -
  have two: "(2::nat) = Suc (Suc 0)" by simp
  have c0: "(kanji, kana, meaning) = (py_strip r, [], [])" if "CHR '','' \<notin> set r"
    using assms that by (simp add: two pad_parts_eq)
  have c1: "(kanji, kana, meaning) = (py_strip a, py_strip b, [])"
    if "r = a @ CHR '','' # b" "CHR '','' \<notin> set a" "CHR '','' \<notin> set b" for a b
  proof -
    have "py_split CHR '','' 2 r = [a, b]"
      unfolding two that(1) py_split_one [OF that(2)] py_split_none [OF that(3)] ..
    with assms show ?thesis by (simp add: pad_parts_eq)
  qed
  have c2: "(kanji, kana, meaning) = (py_strip a, py_strip b, py_strip c)"
    if "r = a @ CHR '','' # b @ CHR '','' # c" "CHR '','' \<notin> set a" "CHR '','' \<notin> set b"
    for a b c
  proof -
    have "py_split CHR '','' 2 r = [a, b, c]"
      unfolding two that(1) py_split_one [OF that(2)] py_split_one [OF that(3)] by simp
    with assms show ?thesis by (simp add: pad_parts_eq)
  qed
  show ?thesis unfolding split_fields_def using c0 c1 c2 by blast
qed

lemma parse_line_accepted:
  assumes acc: "line_accepted raw" and nl: "CHR 0x0A \<notin> set (butlast raw)"
  shows "\<exists>kanji kana meaning.
           parse_line raw = Inr (Some (kanji, kana, meaning))
           \<and> split_fields (line_remainder raw) (kanji, kana, meaning)"
proof -
  let ?line = "py_strip raw"
  from acc have ne: "?line \<noteq> []" by (auto simp: line_accepted_def Let_def)
  have m: "entry_line_match ?line
      = Some (takeWhile py_isdigit ?line, dropWhile py_isspace (tl (dropWhile py_isdigit ?line)))"
    using acc py_strip_no_newline [OF nl] by (rule accepted_match)
  have rest: "py_strip (dropWhile py_isspace (tl (dropWhile py_isdigit ?line)))
      = line_remainder raw"
    by (simp add: py_strip_dropWhile line_remainder_def)
  from padded_fields [of "line_remainder raw"] obtain kanji kana meaning where
    p: "pad_parts (map py_strip (py_split CHR '','' 2 (line_remainder raw)))
          = [kanji, kana, meaning]"
    by blast
  have "parse_line raw = Inr (Some (kanji, kana, meaning))"
    unfolding parse_line_def Let_def m option.case prod.case rest p using ne by simp
  with padded_split_fields [OF p] show ?thesis by blast
qed

lemma parse_line_not_accepted: "\<not> line_accepted raw \<Longrightarrow> parse_line raw = Inr None"
  using not_accepted_no_match [of raw] by (auto simp: parse_line_def Let_def)

lemma parse_loop_accepted:
  assumes "\<forall>l \<in> set ls. CHR 0x0A \<notin> set (butlast l)"
  shows "\<exists>es. parse_loop ls acc = Inr (acc @ es)
           \<and> list_all2 (\<lambda>e raw. parse_line raw = Inr (Some e)) es (filter line_accepted ls)"
  using assms
proof (induction ls arbitrary: acc)
  case Nil
  show ?case by simp
next
  case (Cons raw ls)
  then have nl: "CHR 0x0A \<notin> set (butlast raw)"
    and rest: "\<forall>l \<in> set ls. CHR 0x0A \<notin> set (butlast l)"
    by simp_all
  show ?case
  proof (cases "line_accepted raw")
    case True
    from parse_line_accepted [OF True nl] obtain e where e: "parse_line raw = Inr (Some e)"
      by blast
    from Cons.IH [OF rest, of "acc @ [e]"] obtain es where
      es: "parse_loop ls (acc @ [e]) = Inr ((acc @ [e]) @ es)"
      "list_all2 (\<lambda>e raw. parse_line raw = Inr (Some e)) es (filter line_accepted ls)"
      by blast
    show ?thesis
      using True e es by (intro exI [of _ "e # es"]) simp
  next
    case False
    from Cons.IH [OF rest, of acc] obtain es where
      es: "parse_loop ls acc = Inr (acc @ es)"
      "list_all2 (\<lambda>e raw. parse_line raw = Inr (Some e)) es (filter line_accepted ls)"
      by blast
    show ?thesis
      using False parse_line_not_accepted [OF False] es by (intro exI [of _ es]) simp
  qed
qed

text \<open>
  C10. For every line of a file: the line is accepted exactly when its trimmed form
  starts with a non-empty run of digits followed by a dot; an accepted line always gives
  one entry of three fields, which are the trimmed parts of the remainder split at its
  first two commas (all of it when it has no comma, so that the two other fields are
  empty; two parts when it has one comma, so that the third field is empty; and with
  more commas the third field is everything after the second comma, commas included);
  a line that is not accepted gives nothing. The file's entries are the entries of its
  accepted lines, one each, in order.
\<close>

theorem parse_fixed_file_accepted_lines:
  "(\<forall>raw \<in> set (file_lines text).
       (line_accepted raw \<longleftrightarrow>
          (\<exists>digits rest. digits \<noteq> [] \<and> (\<forall>c \<in> set digits. py_isdigit c)
             \<and> py_strip raw = digits @ CHR ''.'' # rest))
     \<and> (line_accepted raw \<longrightarrow>
          (\<exists>kanji kana meaning.
             parse_line raw = Inr (Some (kanji, kana, meaning))
             \<and> split_fields (line_remainder raw) (kanji, kana, meaning)))
     \<and> (\<not> line_accepted raw \<longrightarrow> parse_line raw = Inr None))
   \<and> (\<exists>entries.
         parse_fixed_file (Some text) = Inr entries
         \<and> list_all2 (\<lambda>e raw. parse_line raw = Inr (Some e)) entries
              (filter line_accepted (file_lines text)))"
proof -
  have nl: "\<forall>l \<in> set (file_lines text). CHR 0x0A \<notin> set (butlast l)"
    using file_lines_newline by blast
  have lines: "\<forall>raw \<in> set (file_lines text).
       (line_accepted raw \<longleftrightarrow>
          (\<exists>digits rest. digits \<noteq> [] \<and> (\<forall>c \<in> set digits. py_isdigit c)
             \<and> py_strip raw = digits @ CHR ''.'' # rest))
     \<and> (line_accepted raw \<longrightarrow>
          (\<exists>kanji kana meaning.
             parse_line raw = Inr (Some (kanji, kana, meaning))
             \<and> split_fields (line_remainder raw) (kanji, kana, meaning)))
     \<and> (\<not> line_accepted raw \<longrightarrow> parse_line raw = Inr None)"
  proof
    fix raw assume "raw \<in> set (file_lines text)"
    with nl have n: "CHR 0x0A \<notin> set (butlast raw)" by blast
    show "(line_accepted raw \<longleftrightarrow>
          (\<exists>digits rest. digits \<noteq> [] \<and> (\<forall>c \<in> set digits. py_isdigit c)
             \<and> py_strip raw = digits @ CHR ''.'' # rest))
     \<and> (line_accepted raw \<longrightarrow>
          (\<exists>kanji kana meaning.
             parse_line raw = Inr (Some (kanji, kana, meaning))
             \<and> split_fields (line_remainder raw) (kanji, kana, meaning)))
     \<and> (\<not> line_accepted raw \<longrightarrow> parse_line raw = Inr None)"
      using line_accepted_iff [of raw] parse_line_accepted [OF _ n]
        parse_line_not_accepted [of raw]
      by blast
  qed
  from parse_loop_accepted [OF nl, of "[]"]
  have whole: "\<exists>entries.
         parse_fixed_file (Some text) = Inr entries
         \<and> list_all2 (\<lambda>e raw. parse_line raw = Inr (Some e)) entries
              (filter line_accepted (file_lines text))"
    by (simp add: parse_fixed_file_def)
  from lines whole show ?thesis by (rule conjI)
qed

theorem parse_fixed_file_accepted_lines_witness:
  "parse_fixed_file (Some example_file) = Inr [(''a'', ''b'', ''c, d''), (''x'', [], [])]"
proof -
  let ?l2 = "''12. a , b,c, d'' @ [CHR 0x0A]"
  let ?l3 = "'' 3.x'' @ [CHR 0x0A]"
  have ls: "file_lines example_file = [''# list'' @ [CHR 0x0A], ?l2, ?l3, ''foo, bar'']"
    by code_simp
  have acc: "filter line_accepted (file_lines example_file) = [?l2, ?l3]"
    by code_simp
  have m2: "?l2 \<in> set (file_lines example_file)" and m3: "?l3 \<in> set (file_lines example_file)"
    unfolding ls by simp_all
  have a2: "line_accepted ?l2" and a3: "line_accepted ?l3" by code_simp+
  have r2: "line_remainder ?l2 = ''a '' @ CHR '','' # '' b'' @ CHR '','' # ''c, d''"
    by code_simp
  have r3: "line_remainder ?l3 = ''x''" by code_simp
  have s: "py_strip ''a '' = ''a''" "py_strip '' b'' = ''b''" "py_strip ''c, d'' = ''c, d''"
    "py_strip ''x'' = ''x''"
    by code_simp+
  note inst = parse_fixed_file_accepted_lines [of example_file]
  from inst m2 a2 obtain k2 h2 g2 where
    p2: "parse_line ?l2 = Inr (Some (k2, h2, g2))"
    and f2: "split_fields (line_remainder ?l2) (k2, h2, g2)"
    by blast
  from f2 have "\<forall>a b c. line_remainder ?l2 = a @ CHR '','' # b @ CHR '','' # c
        \<and> CHR '','' \<notin> set a \<and> CHR '','' \<notin> set b
        \<longrightarrow> (k2, h2, g2) = (py_strip a, py_strip b, py_strip c)"
    unfolding split_fields_def by (rule conjunct2 [THEN conjunct2])
  from this [rule_format, of "''a ''" "'' b''" "''c, d''"] r2
  have e2: "(k2, h2, g2) = (''a'', ''b'', ''c, d'')"
    unfolding s by simp
  from inst m3 a3 obtain k3 h3 g3 where
    p3: "parse_line ?l3 = Inr (Some (k3, h3, g3))"
    and f3: "split_fields (line_remainder ?l3) (k3, h3, g3)"
    by blast
  from f3 have "CHR '','' \<notin> set (line_remainder ?l3)
        \<longrightarrow> (k3, h3, g3) = (py_strip (line_remainder ?l3), [], [])"
    unfolding split_fields_def by (rule conjunct1)
  then have e3: "(k3, h3, g3) = (''x'', [], [])"
    unfolding r3 s by simp
  from inst obtain entries where
    g: "parse_fixed_file (Some example_file) = Inr entries"
    and l: "list_all2 (\<lambda>e raw. parse_line raw = Inr (Some e)) entries
              (filter line_accepted (file_lines example_file))"
    by blast
  from l have "entries = [(k2, h2, g2), (k3, h3, g3)]"
    unfolding acc using p2 p3 by (auto simp: list_all2_Cons2)
  with g e2 e3 show ?thesis by simp
qed

section \<open>Properties of the random source and of the list helpers\<close>

lemma randbelow_draws: "draws (snd (randbelow n r)) = draws r"
  by (simp add: randbelow_def)

lemma randbelow_lt: "0 < n \<Longrightarrow> fst (randbelow n r) < n"
  by (simp add: randbelow_def)

lemma never_stalls_draws: "draws r' = draws r \<Longrightarrow> never_stalls r' = never_stalls r"
  by (simp add: never_stalls_def)

lemma take_update_last_mset:
  assumes "j < m" and "m \<le> length pool"
  shows "add_mset (pool ! j) (mset (take (m - 1) (pool[j := pool ! (m - 1)]))) = mset (take m pool)"
proof -
  from assms have m1: "m - 1 < length pool" and m: "m = Suc (m - 1)" by auto
  have tk: "take m pool = take (m - 1) pool @ [pool ! (m - 1)]"
    using take_Suc_conv_app_nth [OF m1] m by simp
  show ?thesis
  proof (cases "j = m - 1")
    case True
    then show ?thesis using tk by simp
  next
    case False
    with assms have j: "j < m - 1" by simp
    then have jl: "j < length (take (m - 1) pool)" using m1 by simp
    have "take (m - 1) (pool[j := pool ! (m - 1)]) = (take (m - 1) pool)[j := pool ! (m - 1)]"
      using j by (simp add: take_update_swap)
    moreover have "pool ! j \<in># mset (take (m - 1) pool)"
      using jl nth_mem [OF jl] by simp
    ultimately show ?thesis
      using tk jl by (simp add: mset_update)
  qed
qed

text \<open>The pool loop returns \<open>k\<close> elements of the pool, each position at most once.\<close>

lemma sample_loop_mset:
  "k \<le> m \<Longrightarrow> m \<le> length pool \<Longrightarrow>
     mset (fst (sample_loop pool m k r)) \<subseteq># mset (take m pool)
     \<and> length (fst (sample_loop pool m k r)) = k
     \<and> draws (snd (sample_loop pool m k r)) = draws r"
proof (induction k arbitrary: pool m r)
  case 0
  then show ?case by simp
next
  case (Suc k)
  obtain j r' where rb: "randbelow m r = (j, r')" by (cases "randbelow m r") auto
  from Suc.prems have mpos: "0 < m" by simp
  have j: "j < m" using randbelow_lt [OF mpos, of r] rb by simp
  have d: "draws r' = draws r" using randbelow_draws [of m r] rb by simp
  let ?pool' = "pool[j := pool ! (m - 1)]"
  obtain rest r'' where sl: "sample_loop ?pool' (m - 1) k r' = (rest, r'')"
    by (cases "sample_loop ?pool' (m - 1) k r'") auto
  have "k \<le> m - 1" "m - 1 \<le> length ?pool'" using Suc.prems by simp_all
  from Suc.IH [OF this, of r'] sl
  have ih: "mset rest \<subseteq># mset (take (m - 1) ?pool')" "length rest = k" "draws r'' = draws r'"
    by simp_all
  have "add_mset (pool ! j) (mset rest) \<subseteq># add_mset (pool ! j) (mset (take (m - 1) ?pool'))"
    using ih(1) by simp
  also have "\<dots> = mset (take m pool)"
    by (rule take_update_last_mset [OF j Suc.prems(2)])
  finally show ?case using rb sl ih(2,3) d by simp
qed

text \<open>The redraw loop: when it returns, the position is a fresh one; on a source that
  never stalls it returns.\<close>

lemma redraw_some:
  assumes "redraw n sel j r = Some y"
  shows "fst y \<notin> sel \<and> draws (snd y) = draws r \<and> (0 < n \<longrightarrow> j < n \<longrightarrow> fst y < n)"
  using assms
proof (induction n sel j r y rule: redraw.raw_induct [rotated 1, consumes 1, case_names step])
  case (step rd n sel j r y)
  note IH = step(1) and eq = step(2)
  show ?case
  proof (cases "j \<in> sel")
    case True
    obtain j' r' where rb: "randbelow n r = (j', r')" by (cases "randbelow n r") auto
    have d: "draws r' = draws r" using randbelow_draws [of n r] rb by simp
    have l: "0 < n \<Longrightarrow> j' < n" using randbelow_lt [of n r] rb by simp
    have "rd n sel j' r' = Some y" using eq True rb by simp
    then have "fst y \<notin> sel \<and> draws (snd y) = draws r' \<and> (0 < n \<longrightarrow> j' < n \<longrightarrow> fst y < n)"
      by (rule IH)
    with d l show ?thesis by auto
  next
    case False
    with eq show ?thesis by auto
  qed
qed

lemma redraw_fresh: "j \<notin> sel \<Longrightarrow> redraw n sel j r = Some (j, r)"
  by (subst redraw.simps) simp

lemma redraw_again:
  "j \<in> sel \<Longrightarrow>
     redraw n sel j r = redraw n sel (draws r (pos r) mod n) (r\<lparr>pos := Suc (pos r)\<rparr>)"
  by (subst redraw.simps) (simp add: randbelow_def)

lemma redraw_after:
  "draws r (pos r + i) mod n \<notin> sel \<Longrightarrow> \<exists>y. redraw n sel j r = Some y"
proof (induction i arbitrary: j r)
  case 0
  show ?case
  proof (cases "j \<in> sel")
    case True
    from 0 have "draws r (pos r) mod n \<notin> sel" by simp
    then show ?thesis unfolding redraw_again [OF True] by (simp add: redraw_fresh)
  next
    case False
    then show ?thesis by (simp add: redraw_fresh)
  qed
next
  case (Suc i)
  show ?case
  proof (cases "j \<in> sel")
    case True
    let ?r' = "r\<lparr>pos := Suc (pos r)\<rparr>"
    have "draws ?r' (pos ?r' + i) mod n \<notin> sel" using Suc.prems by simp
    from Suc.IH [OF this, of "draws r (pos r) mod n"]
    show ?thesis unfolding redraw_again [OF True] .
  next
    case False
    then show ?thesis by (simp add: redraw_fresh)
  qed
qed

lemma redraw_returns:
  assumes "never_stalls r" and "finite sel" and "card sel < n"
  shows "\<exists>y. redraw n sel j r = Some y"
proof -
  from assms obtain i where "draws r (pos r + i) mod n \<notin> sel"
    unfolding never_stalls_def by blast
  then show ?thesis by (rule redraw_after)
qed

text \<open>The set loop: when it returns, it has selected \<open>k\<close> distinct fresh positions of
  the population, in order; on a source that never stalls it returns.\<close>

lemma sample_set_loop_some:
  "sample_set_loop population n sel k r = Some (res, r') \<Longrightarrow> 0 < n \<Longrightarrow>
     \<exists>js. res = map (\<lambda>j. population ! j) js \<and> distinct js \<and> set js \<inter> sel = {}
          \<and> set js \<subseteq> {..<n} \<and> length js = k \<and> draws r' = draws r"
proof (induction k arbitrary: sel r res r')
  case 0
  then show ?case by simp
next
  case (Suc k)
  obtain j0 r0 where rb: "randbelow n r = (j0, r0)" by (cases "randbelow n r") auto
  have d0: "draws r0 = draws r" using randbelow_draws [of n r] rb by simp
  have l0: "j0 < n" using randbelow_lt [OF Suc.prems(2), of r] rb by simp
  from Suc.prems(1) rb obtain j r1 where rd: "redraw n sel j0 r0 = Some (j, r1)"
    by (cases "redraw n sel j0 r0") auto
  from redraw_some [OF rd] l0 Suc.prems(2)
  have j: "j \<notin> sel" "j < n" and d1: "draws r1 = draws r0" by simp_all
  from Suc.prems(1) rb rd obtain rest where
    sl: "sample_set_loop population n (insert j sel) k r1 = Some (rest, r')"
    and res: "res = population ! j # rest"
    by (cases "sample_set_loop population n (insert j sel) k r1") auto
  from Suc.IH [OF sl Suc.prems(2)] obtain js where
    js: "rest = map (\<lambda>j. population ! j) js" "distinct js" "set js \<inter> insert j sel = {}"
      "set js \<subseteq> {..<n}" "length js = k" "draws r' = draws r1"
    by blast
  show ?case
    using js j res d0 d1 by (intro exI [of _ "j # js"]) auto
qed

lemma sample_set_loop_returns:
  "never_stalls r \<Longrightarrow> finite sel \<Longrightarrow> card sel + k \<le> n \<Longrightarrow>
     \<exists>y. sample_set_loop population n sel k r = Some y"
proof (induction k arbitrary: sel r)
  case 0
  show ?case by simp
next
  case (Suc k)
  obtain j0 r0 where rb: "randbelow n r = (j0, r0)" by (cases "randbelow n r") auto
  have d0: "draws r0 = draws r" using randbelow_draws [of n r] rb by simp
  have ns0: "never_stalls r0" using Suc.prems(1) never_stalls_draws [OF d0] by simp
  have lt: "card sel < n" using Suc.prems(3) by linarith
  from redraw_returns [OF ns0 Suc.prems(2) lt, of j0] obtain y1 where
    rd1: "redraw n sel j0 r0 = Some y1" by blast
  obtain j r1 where y1: "y1 = (j, r1)" by (cases y1) auto
  have rd: "redraw n sel j0 r0 = Some (j, r1)" using rd1 y1 by simp
  from redraw_some [OF rd] have d1: "draws r1 = draws r0" by simp
  have ns1: "never_stalls r1" using ns0 never_stalls_draws [OF d1] by simp
  have fin: "finite (insert j sel)" using Suc.prems(2) by simp
  have "card (insert j sel) \<le> Suc (card sel)"
    using Suc.prems(2) by (simp add: card_insert_if)
  then have le: "card (insert j sel) + k \<le> n" using Suc.prems(3) by linarith
  from Suc.IH [OF ns1 fin le] obtain y2 where
    sl2: "sample_set_loop population n (insert j sel) k r1 = Some y2" by blast
  obtain rest r2 where y2: "y2 = (rest, r2)" by (cases y2) auto
  have "sample_set_loop population n sel (Suc k) r = Some (population ! j # rest, r2)"
    unfolding sample_set_loop.simps rb prod.case rd option.case sl2 y2 by simp
  then show ?case by blast
qed

lemma mset_map_nth_subset:
  assumes "distinct js" and "set js \<subseteq> {..<length xs}"
  shows "mset (map (\<lambda>j. xs ! j) js) \<subseteq># mset xs"
proof -
  have "mset js \<subseteq># mset [0..<length xs]"
  proof (rule mset_subset_eqI)
    fix a
    have "count (mset js) a = (if a \<in> set js then 1 else 0)"
      using assms(1) by (simp add: distinct_count_atmost_1)
    moreover have "count (mset [0..<length xs]) a = (if a < length xs then 1 else 0)"
      by (simp add: distinct_count_atmost_1)
    ultimately show "count (mset js) a \<le> count (mset [0..<length xs]) a"
      using assms(2) by auto
  qed
  then have "image_mset (\<lambda>j. xs ! j) (mset js) \<subseteq># image_mset (\<lambda>j. xs ! j) (mset [0..<length xs])"
    by (rule image_mset_subseteq_mono)
  moreover have "map (\<lambda>j. xs ! j) [0..<length xs] = xs" by (rule map_nth)
  ultimately show ?thesis by (metis mset_map)
qed

text \<open>\<open>rng.sample\<close>, both loops: it never raises when the sample fits; when it returns,
  the sample holds \<open>k\<close> elements of the population, each position at most once; and it
  returns on every source that never stalls.\<close>

lemma py_sample_result:
  assumes "k \<le> length population"
  shows "(never_stalls r \<longrightarrow> py_sample population k r \<noteq> None)
       \<and> (\<forall>res. py_sample population k r = Some res \<longrightarrow>
             (\<exists>d r'. res = Inr (d, r') \<and> mset d \<subseteq># mset population \<and> length d = k
                     \<and> draws r' = draws r))"
proof (cases "length population \<le> sample_setsize k")
  case True
  let ?n = "length population"
  have p: "py_sample population k r = Some (Inr (sample_loop population ?n k r))"
    using assms True by (simp add: py_sample_def)
  from sample_loop_mset [OF assms order_refl, of r]
  have "mset (fst (sample_loop population ?n k r)) \<subseteq># mset population"
    "length (fst (sample_loop population ?n k r)) = k"
    "draws (snd (sample_loop population ?n k r)) = draws r"
    by simp_all
  then show ?thesis
    unfolding p by (cases "sample_loop population ?n k r") auto
next
  case False
  let ?n = "length population"
  have p: "py_sample population k r = map_option Inr (sample_set_loop population ?n {} k r)"
    using assms False by (simp add: py_sample_def)
  have npos: "0 < ?n" using False by (cases "?n") (simp_all add: sample_setsize_def)
  have ret: "never_stalls r \<Longrightarrow> py_sample population k r \<noteq> None"
    using sample_set_loop_returns [of r "{}" k ?n population] assms unfolding p by auto
  have some: "\<exists>d r'. res = Inr (d, r') \<and> mset d \<subseteq># mset population \<and> length d = k
                     \<and> draws r' = draws r"
    if "py_sample population k r = Some res" for res
  proof -
    from that obtain d r' where sl: "sample_set_loop population ?n {} k r = Some (d, r')"
      and res: "res = Inr (d, r')"
      unfolding p by auto
    from sample_set_loop_some [OF sl npos] obtain js where
      js: "d = map (\<lambda>j. population ! j) js" "distinct js" "set js \<subseteq> {..<?n}" "length js = k"
        "draws r' = draws r"
      by blast
    have "mset d \<subseteq># mset population"
      unfolding js(1) using js(2,3) by (rule mset_map_nth_subset)
    with js res show ?thesis by simp
  qed
  from ret some show ?thesis by blast
qed

lemma shuffle_loop_mset:
  "i = 0 \<or> i < length x \<Longrightarrow>
     mset (fst (shuffle_loop x i r)) = mset x \<and> draws (snd (shuffle_loop x i r)) = draws r"
proof (induction i arbitrary: x r)
  case 0
  then show ?case by simp
next
  case (Suc i)
  obtain j r' where rb: "randbelow (Suc i + 1) r = (j, r')"
    by (cases "randbelow (Suc i + 1) r") auto
  have "j < Suc i + 1" using randbelow_lt [of "Suc i + 1" r] rb by simp
  with Suc.prems have j: "j < length x" and i: "Suc i < length x" by simp_all
  have d: "draws r' = draws r" using randbelow_draws [of "Suc i + 1" r] rb by simp
  let ?x' = "x[Suc i := x ! j, j := x ! Suc i]"
  have sw: "mset ?x' = mset x" using mset_swap [OF j i] .
  have "i = 0 \<or> i < length ?x'" using i by simp
  from Suc.IH [OF this, of r'] show ?case using rb sw d by simp
qed

lemma py_shuffle_mset:
  "mset (fst (py_shuffle x r)) = mset x \<and> draws (snd (py_shuffle x r)) = draws r"
  unfolding py_shuffle_def
  by (rule shuffle_loop_mset) (cases x; simp)

lemma py_index_found:
  "v \<in> set xs \<Longrightarrow> \<exists>i. py_index xs v = Inr i \<and> i < length xs \<and> xs ! i = v"
  by (induction xs) auto

section \<open>Steps of the run\<close>

lemma run_ok_Some: "Q x \<Longrightarrow> run_ok r (Some (Inr x)) Q"
  by (simp add: run_ok_def)

lemma run_ok_None: "\<not> never_stalls r \<Longrightarrow> run_ok r None Q"
  by (simp add: run_ok_def)

lemma run_ok_cases:
  assumes "run_ok r m Q"
  obtains (stall) "m = None" "\<not> never_stalls r" | (ret) x where "m = Some (Inr x)" "Q x"
proof (cases m)
  case None
  with assms have "\<not> never_stalls r" by (simp add: run_ok_def)
  with None show ?thesis by (rule stall)
next
  case (Some res)
  with assms obtain x where "res = Inr x" "Q x" unfolding run_ok_def by blast
  with Some show ?thesis using ret by simp
qed

lemma run_ok_and_then:
  assumes "run_ok r m Q" and "\<And>x. Q x \<Longrightarrow> run_ok r (f x) Q'"
  shows "run_ok r (and_then m f) Q'"
  using assms(1)
proof (cases rule: run_ok_cases)
  case stall
  then show ?thesis by (simp add: and_then_def run_ok_None)
next
  case (ret x)
  from assms(2) [OF ret(2)] show ?thesis using ret(1) by (simp add: and_then_def)
qed

lemma run_ok_mono:
  assumes "run_ok r m Q" and "\<And>x. Q x \<Longrightarrow> Q' x"
  shows "run_ok r m Q'"
  using assms unfolding run_ok_def by blast

lemma run_ok_draws: "draws r' = draws r \<Longrightarrow> run_ok r' m Q \<Longrightarrow> run_ok r m Q"
  unfolding run_ok_def using never_stalls_draws [of r' r] by simp

lemma py_sample_ok:
  assumes "k \<le> length population"
  shows "run_ok r (py_sample population k r)
           (\<lambda>x. mset (fst x) \<subseteq># mset population \<and> length (fst x) = k
                \<and> draws (snd x) = draws r)"
  using py_sample_result [OF assms, of r] unfolding run_ok_def by auto

lemma produced_refl: "draws (rng_state st) = draws r \<Longrightarrow> produced ps r st [] 0 st"
  by (simp add: produced_def)

lemma produced_trans:
  assumes "produced ps r st p1 n1 st1" and "produced ps r st1 p2 n2 st2"
  shows "produced ps r st (p1 @ p2) (n1 + n2) st2"
proof -
  from assms(1) obtain qs1 where
    a: "skipped st1 = skipped st + n1" "questions st1 = questions st @ qs1"
       "list_all2 (question_ok ps) qs1 p1"
    unfolding produced_def by blast
  from assms(2) obtain qs2 where
    b: "draws (rng_state st2) = draws r" "skipped st2 = skipped st1 + n2"
       "questions st2 = questions st1 @ qs2" "list_all2 (question_ok ps) qs2 p2"
    unfolding produced_def by blast
  have "list_all2 (question_ok ps) (qs1 @ qs2) (p1 @ p2)"
    using a(3) b(4) by (rule list_all2_appendI)
  moreover have "questions st2 = questions st @ (qs1 @ qs2)" using a(2) b(3) by simp
  ultimately show ?thesis
    unfolding produced_def using a(1) b(1,2) by (intro conjI exI [of _ "qs1 @ qs2"]) simp_all
qed

lemma produced_draws: "produced ps r st p n st' \<Longrightarrow> draws (rng_state st') = draws r"
  by (simp add: produced_def)

section \<open>The unique pools\<close>

lemma filter_dict_fromkeys_step:
  "filter (\<lambda>k. k \<noteq> [])
     (foldl (\<lambda>keys x. if x \<in> set keys then keys else keys @ [x]) acc xs)
   = foldl add_unique (filter (\<lambda>k. k \<noteq> []) acc) xs"
proof (induction xs arbitrary: acc)
  case Nil
  show ?case by simp
next
  case (Cons x xs)
  have "filter (\<lambda>k. k \<noteq> []) (if x \<in> set acc then acc else acc @ [x])
      = add_unique (filter (\<lambda>k. k \<noteq> []) acc) x"
    by (auto simp: add_unique_def)
  then show ?case using Cons.IH by simp
qed

lemma unique_pool_eq: "unique_pool pool = first_appearances pool"
  unfolding unique_pool_def dict_fromkeys_def filter_dict_fromkeys_step
  by (simp add: foldl_add_unique_first_appearances)

lemma distinct_unique_pool: "distinct (unique_pool pool)"
  by (simp add: unique_pool_eq distinct_first_appearances)

lemma set_unique_pool: "set (unique_pool pool) = set pool - {[]}"
  by (simp add: unique_pool_eq set_first_appearances)

lemma candidates_card:
  "length (filter (\<lambda>p. p \<noteq> c) (unique_pool pool)) = card (eligible pool c)"
proof -
  have "distinct (filter (\<lambda>p. p \<noteq> c) (unique_pool pool))"
    using distinct_unique_pool by simp
  then have "length (filter (\<lambda>p. p \<noteq> c) (unique_pool pool))
      = card (set (filter (\<lambda>p. p \<noteq> c) (unique_pool pool)))"
    by (rule distinct_card [symmetric])
  also have "set (filter (\<lambda>p. p \<noteq> c) (unique_pool pool)) = eligible pool c"
    by (auto simp: set_unique_pool eligible_def)
  finally show ?thesis .
qed

lemma pool_for_unique_pools: "pool_for f (unique_pools P) = unique_pool (pool_for f P)"
  by (cases P; cases f) simp_all

section \<open>One block of the loop body\<close>

lemma mset_subseteq_distinct:
  assumes "mset xs \<subseteq># mset ys" and "distinct ys"
  shows "distinct xs"
proof -
  have le: "count (mset xs) a \<le> count (mset ys) a" for a
    using assms(1) by (rule mset_subset_eq_count)
  have "count (mset ys) a \<le> 1" for a
    using assms(2) by (simp add: distinct_count_atmost_1)
  then have c: "count (mset xs) a \<le> 1" for a
    using le [of a] by (meson order_trans)
  show ?thesis
    unfolding distinct_count_atmost_1
  proof (intro allI)
    fix a
    show "count (mset xs) a = (if a \<in> set xs then 1 else 0)"
    proof (cases "a \<in> set xs")
      case True
      then have "0 < count (mset xs) a" by simp
      with c [of a] have "count (mset xs) a = 1" by linarith
      then show ?thesis using True by simp
    next
      case False
      then show ?thesis by (simp add: count_eq_zero_iff)
    qed
  qed
qed

lemma direction_block_silent:
  "s = [] \<or> t = [] \<Longrightarrow> direction_block idx tag s t txt pool st = Some (Inr st)"
  by (auto simp: direction_block_def)

lemma direction_block_skip:
  "s \<noteq> [] \<Longrightarrow> t \<noteq> [] \<Longrightarrow> length (filter (\<lambda>p. p \<noteq> t) pool) < 3 \<Longrightarrow>
     direction_block idx tag s t txt pool st = Some (Inr (st\<lparr>skipped := skipped st + 1\<rparr>))"
  by (simp add: direction_block_def sample_distractors_def and_then_def)

lemma direction_block_sampled:
  assumes "s \<noteq> []" and "t \<noteq> []" and "\<not> length (filter (\<lambda>p. p \<noteq> t) pool) < 3"
  shows "direction_block idx tag s t txt pool st
       = and_then (py_sample (filter (\<lambda>p. p \<noteq> t) pool) 3 (rng_state st)) (\<lambda>x.
           (case py_shuffle (fst x @ [t]) (snd x) of (opts, r') \<Rightarrow>
              (case py_index opts t of
                 Inl e \<Rightarrow> Some (Inl e)
               | Inr ci \<Rightarrow>
                   Some (Inr (make_question idx tag s txt t opts ci (st\<lparr>rng_state := r'\<rparr>))))))"
proof (cases "py_sample (filter (\<lambda>p. p \<noteq> t) pool) 3 (rng_state st)")
  case None
  then show ?thesis using assms
    by (simp add: direction_block_def sample_distractors_def and_then_def)
next
  case (Some res)
  then show ?thesis using assms
    by (cases res) (auto simp: direction_block_def sample_distractors_def and_then_def)
qed

lemma direction_block_emit:
  assumes s: "s \<noteq> []" and t: "t \<noteq> []"
    and enough: "\<not> length (filter (\<lambda>p. p \<noteq> t) pool) < 3"
    and dist: "distinct pool" and ne: "[] \<notin> set pool"
    and dr: "draws (rng_state st) = draws r"
  shows "run_ok r (direction_block idx tag s t txt pool st)
           (\<lambda>st'. \<exists>opts ci r'.
              st' = st\<lparr>questions := questions st @
                         [\<lparr>entry_index = idx, q_type = tag, prompt = s, q_text = txt,
                           options = opts, correct_answer = t, correct_index = ci\<rparr>],
                       rng_state := r'\<rparr>
              \<and> draws r' = draws r
              \<and> length opts = 4 \<and> distinct opts \<and> ci < 4 \<and> opts ! ci = t
              \<and> t \<in> set opts \<and> set opts \<subseteq> insert t (set pool) \<and> [] \<notin> set opts)"
proof -
  let ?cands = "filter (\<lambda>p. p \<noteq> t) pool"
  from enough have three: "3 \<le> length ?cands" by simp
  have smp: "run_ok r (py_sample ?cands 3 (rng_state st))
           (\<lambda>x. mset (fst x) \<subseteq># mset ?cands \<and> length (fst x) = 3
                \<and> draws (snd x) = draws r)"
    using py_sample_ok [OF three, of "rng_state st"] dr
    by (intro run_ok_draws [OF dr]) simp
  show ?thesis
    unfolding direction_block_sampled [OF s t enough]
  proof (rule run_ok_and_then [OF smp])
    fix x :: "string list \<times> rng"
    assume x: "mset (fst x) \<subseteq># mset ?cands \<and> length (fst x) = 3 \<and> draws (snd x) = draws r"
    obtain d r1 where xe: "x = (d, r1)" by (cases x) auto
    from x xe have dsub: "mset d \<subseteq># mset ?cands" and dlen: "length d = 3"
      and d1: "draws r1 = draws r" by simp_all
    have dset: "set d \<subseteq> set ?cands" using set_mset_mono [OF dsub] by simp
    have ddist: "distinct d"
    proof -
      have dc: "distinct ?cands" using dist by simp
      show ?thesis by (rule mset_subseteq_distinct [OF dsub dc])
    qed
    obtain opts r' where sh: "py_shuffle (d @ [t]) r1 = (opts, r')"
      by (cases "py_shuffle (d @ [t]) r1") auto
    have om: "mset opts = mset (d @ [t])" using py_shuffle_mset [of "d @ [t]" r1] sh by simp
    have d2: "draws r' = draws r" using py_shuffle_mset [of "d @ [t]" r1] sh d1 by simp
    have oset: "set opts = set (d @ [t])" using om by (rule mset_eq_setD)
    have olen: "length opts = 4" using mset_eq_length [OF om] dlen by simp
    have "distinct (d @ [t])" using ddist dset by auto
    then have odist: "distinct opts" using mset_eq_imp_distinct_iff [OF om] by simp
    have tin: "t \<in> set opts" using oset by simp
    from py_index_found [OF tin] obtain ci where
      ci: "py_index opts t = Inr ci" "ci < length opts" "opts ! ci = t" by blast
    have sub: "set opts \<subseteq> insert t (set pool)" using oset dset by auto
    have nem: "[] \<notin> set opts" using sub t ne by auto
    have val: "(case py_shuffle (fst x @ [t]) (snd x) of (opts, r') \<Rightarrow>
              (case py_index opts t of
                 Inl e \<Rightarrow> Some (Inl e)
               | Inr ci \<Rightarrow>
                   Some (Inr (make_question idx tag s txt t opts ci (st\<lparr>rng_state := r'\<rparr>)))))
        = Some (Inr (st\<lparr>questions := questions st @
                  [\<lparr>entry_index = idx, q_type = tag, prompt = s, q_text = txt,
                    options = opts, correct_answer = t, correct_index = ci\<rparr>],
                rng_state := r'\<rparr>))"
      using xe sh ci(1) by (simp add: make_question_def)
    show "run_ok r (case py_shuffle (fst x @ [t]) (snd x) of (opts, r') \<Rightarrow>
              (case py_index opts t of
                 Inl e \<Rightarrow> Some (Inl e)
               | Inr ci \<Rightarrow>
                   Some (Inr (make_question idx tag s txt t opts ci (st\<lparr>rng_state := r'\<rparr>)))))
           (\<lambda>st'. \<exists>opts ci r'.
              st' = st\<lparr>questions := questions st @
                         [\<lparr>entry_index = idx, q_type = tag, prompt = s, q_text = txt,
                           options = opts, correct_answer = t, correct_index = ci\<rparr>],
                       rng_state := r'\<rparr>
              \<and> draws r' = draws r
              \<and> length opts = 4 \<and> distinct opts \<and> ci < 4 \<and> opts ! ci = t
              \<and> t \<in> set opts \<and> set opts \<subseteq> insert t (set pool) \<and> [] \<notin> set opts)"
      unfolding val
      by (rule run_ok_Some, intro exI [of _ opts] exI [of _ ci] exI [of _ r'])
         (use olen odist ci(2,3) tin sub nem d2 in simp)
  qed
qed

section \<open>The loop body and the loop\<close>

lemma and_then_Some: "and_then m (\<lambda>x. Some (Inr x)) = m"
proof (cases m)
  case None
  then show ?thesis by (simp add: and_then_def)
next
  case (Some res)
  then show ?thesis by (cases res) (simp_all add: and_then_def)
qed

lemma entry_body_eq:
  "entry_body kpu hpu mpu idx e st = run_directions (kpu, hpu, mpu) idx e six_directions st"
proof -
  obtain kanji kana meaning where e: "e = (kanji, kana, meaning)" by (cases e) auto
  have nil: "run_directions ps idx e [] = (\<lambda>x. Some (Inr x))" for ps by (rule ext) simp
  have cons: "run_directions ps idx e (d # ds)
      = (\<lambda>st. and_then (direction_block idx (type_tag d) (field_val (fst d) e)
                 (field_val (snd d) e) (question_text d (field_val (fst d) e))
                 (pool_for (snd d) ps) st) (run_directions ps idx e ds))" for ps d ds
    by (rule ext) simp
  show ?thesis
    unfolding six_directions_def cons nil and_then_Some
    unfolding e entry_body_def
    by (simp add: field_val_def Let_def)
qed

lemma block_outcome:
  assumes dr: "draws (rng_state st) = draws r"
  shows "run_ok r
     (direction_block idx (type_tag d) (field_val (fst d) e) (field_val (snd d) e)
         (question_text d (field_val (fst d) e)) (pool_for (snd d) (unique_pools P)) st)
     (produced (unique_pools P) r st
        (if direction_outcome P e d = Emitted then [(idx, e, d)] else [])
        (if direction_outcome P e d = Skipped then 1 else 0))"
proof -
  let ?s = "field_val (fst d) e" and ?t = "field_val (snd d) e"
  let ?pool = "pool_for (snd d) (unique_pools P)"
  let ?blk = "direction_block idx (type_tag d) ?s ?t (question_text d ?s) ?pool st"
  have pool: "?pool = unique_pool (pool_for (snd d) P)" by (rule pool_for_unique_pools)
  have cnt: "length (filter (\<lambda>p. p \<noteq> ?t) ?pool) = card (eligible (pool_for (snd d) P) ?t)"
    unfolding pool by (rule candidates_card)
  consider (silent) "?s = [] \<or> ?t = []"
    | (skip) "?s \<noteq> []" "?t \<noteq> []" "length (filter (\<lambda>p. p \<noteq> ?t) ?pool) < 3"
    | (emit) "?s \<noteq> []" "?t \<noteq> []" "\<not> length (filter (\<lambda>p. p \<noteq> ?t) ?pool) < 3"
    by blast
  then show ?thesis
  proof cases
    case silent
    then have out: "direction_outcome P e d = Silent" by (simp add: direction_outcome_def)
    have "?blk = Some (Inr st)" using silent by (rule direction_block_silent)
    then show ?thesis unfolding out using dr by (simp add: run_ok_Some produced_def)
  next
    case skip
    then have out: "direction_outcome P e d = Skipped"
      using cnt by (simp add: direction_outcome_def)
    have "?blk = Some (Inr (st\<lparr>skipped := skipped st + 1\<rparr>))"
      using skip by (rule direction_block_skip)
    then show ?thesis unfolding out using dr by (simp add: run_ok_Some produced_def)
  next
    case emit
    then have out: "direction_outcome P e d = Emitted"
      using cnt by (simp add: direction_outcome_def)
    have dist: "distinct ?pool" unfolding pool by (rule distinct_unique_pool)
    have ne: "[] \<notin> set ?pool" unfolding pool by (simp add: set_unique_pool)
    show ?thesis
      unfolding out
    proof (rule run_ok_mono
        [OF direction_block_emit [OF emit dist ne dr, of idx "type_tag d" "question_text d ?s"]])
      fix st'
      assume "\<exists>opts ci r'.
              st' = st\<lparr>questions := questions st @
                         [\<lparr>entry_index = idx, q_type = type_tag d, prompt = ?s,
                           q_text = question_text d ?s,
                           options = opts, correct_answer = ?t, correct_index = ci\<rparr>],
                       rng_state := r'\<rparr>
              \<and> draws r' = draws r
              \<and> length opts = 4 \<and> distinct opts \<and> ci < 4 \<and> opts ! ci = ?t
              \<and> ?t \<in> set opts \<and> set opts \<subseteq> insert ?t (set ?pool) \<and> [] \<notin> set opts"
      then obtain opts ci r' where
        st': "st' = st\<lparr>questions := questions st @
                  [\<lparr>entry_index = idx, q_type = type_tag d, prompt = ?s,
                    q_text = question_text d ?s,
                    options = opts, correct_answer = ?t, correct_index = ci\<rparr>],
                rng_state := r'\<rparr>"
        and d': "draws r' = draws r"
        and props: "length opts = 4" "distinct opts" "ci < 4" "opts ! ci = ?t"
          "?t \<in> set opts" "set opts \<subseteq> insert ?t (set ?pool)" "[] \<notin> set opts"
        by blast
      let ?q = "\<lparr>entry_index = idx, q_type = type_tag d, prompt = ?s,
                  q_text = question_text d ?s,
                  options = opts, correct_answer = ?t, correct_index = ci\<rparr>"
      have ok: "question_ok (unique_pools P) ?q (idx, e, d)" using props by simp
      show "produced (unique_pools P) r st
              (if Emitted = Emitted then [(idx, e, d)] else [])
              (if Emitted = Skipped then 1 else 0) st'"
        unfolding produced_def st' using ok d'
        by (intro conjI exI [of _ "[?q]"]) simp_all
    qed
  qed
qed

lemma run_directions_result:
  "draws (rng_state st) = draws r \<Longrightarrow>
     run_ok r (run_directions (unique_pools P) idx e ds st)
       (produced (unique_pools P) r st
          (map (\<lambda>d. (idx, e, d)) (filter (\<lambda>d. direction_outcome P e d = Emitted) ds))
          (length (filter (\<lambda>d. direction_outcome P e d = Skipped) ds)))"
proof (induction ds arbitrary: st)
  case Nil
  then show ?case by (simp add: run_ok_Some produced_refl)
next
  case (Cons d ds)
  let ?n1 = "if direction_outcome P e d = Skipped then 1 else 0 :: nat"
  let ?p1 = "if direction_outcome P e d = Emitted then [(idx, e, d)] else []"
  let ?n2 = "length (filter (\<lambda>d. direction_outcome P e d = Skipped) ds)"
  let ?p2 = "map (\<lambda>d. (idx, e, d)) (filter (\<lambda>d. direction_outcome P e d = Emitted) ds)"
  have n: "length (filter (\<lambda>d. direction_outcome P e d = Skipped) (d # ds)) = ?n1 + ?n2"
    by simp
  have p: "map (\<lambda>d. (idx, e, d)) (filter (\<lambda>d. direction_outcome P e d = Emitted) (d # ds))
     = ?p1 @ ?p2"
    by simp
  show ?case
    unfolding run_directions.simps n p
  proof (rule run_ok_and_then [OF block_outcome [OF Cons.prems]])
    fix st1
    assume a: "produced (unique_pools P) r st ?p1 ?n1 st1"
    from Cons.IH [OF produced_draws [OF a]]
    show "run_ok r (run_directions (unique_pools P) idx e ds st1)
            (produced (unique_pools P) r st (?p1 @ ?p2) (?n1 + ?n2))"
      by (rule run_ok_mono) (rule produced_trans [OF a])
  qed
qed

lemma entries_loop_result:
  "draws (rng_state st) = draws r \<Longrightarrow>
     run_ok r (entries_loop (unique_pool kp) (unique_pool hp) (unique_pool mp) idx es st)
       (produced (unique_pools (kp, hp, mp)) r st
          (emission_plan (kp, hp, mp) idx es) (skip_total (kp, hp, mp) es))"
proof (induction es arbitrary: idx st)
  case Nil
  then show ?case by (simp add: run_ok_Some produced_refl skip_total_def)
next
  case (Cons e es)
  let ?P = "(kp, hp, mp)"
  let ?n1 = "length (filter (\<lambda>d. direction_outcome ?P e d = Skipped) six_directions)"
  let ?p1 = "map (\<lambda>d. (idx, e, d))
               (filter (\<lambda>d. direction_outcome ?P e d = Emitted) six_directions)"
  have n: "skip_total ?P (e # es) = ?n1 + skip_total ?P es"
    by (simp add: skip_total_def)
  have p: "emission_plan ?P idx (e # es) = ?p1 @ emission_plan ?P (Suc idx) es"
    by simp
  have body: "run_ok r (entry_body (unique_pool kp) (unique_pool hp) (unique_pool mp) idx e st)
       (produced (unique_pools ?P) r st ?p1 ?n1)"
    unfolding entry_body_eq
    using run_directions_result [OF Cons.prems, of ?P idx e six_directions] by simp
  show ?case
    unfolding entries_loop.simps n p
  proof (rule run_ok_and_then [OF body])
    fix st1
    assume a: "produced (unique_pools ?P) r st ?p1 ?n1 st1"
    from Cons.IH [OF produced_draws [OF a], of "Suc idx"]
    show "run_ok r
            (entries_loop (unique_pool kp) (unique_pool hp) (unique_pool mp) (Suc idx) es st1)
            (produced (unique_pools ?P) r st (?p1 @ emission_plan ?P (Suc idx) es)
               (?n1 + skip_total ?P es))"
      by (rule run_ok_mono) (rule produced_trans [OF a])
  qed
qed

text \<open>The whole run: it does not raise, it returns on a source that never stalls, and the
  questions it returns follow the emission plan.\<close>

lemma generate_result:
  "run_ok (case rng_arg of None \<Rightarrow> ambient | Some given \<Rightarrow> given)
     (generate_all_questions entries kp hp mp min_options rng_arg ambient)
     (\<lambda>res. snd (fst res) = skip_total (kp, hp, mp) entries
           \<and> list_all2 (question_ok (unique_pools (kp, hp, mp))) (fst (fst res))
               (emission_plan (kp, hp, mp) 1 entries))"
proof -
  let ?r = "case rng_arg of None \<Rightarrow> ambient | Some given \<Rightarrow> given"
  let ?st = "\<lparr>questions = [], skipped = 0, rng_state = ?r\<rparr>"
  have d: "draws (rng_state ?st) = draws ?r" by simp
  show ?thesis
    unfolding generate_all_questions_def Let_def
  proof (rule run_ok_and_then [OF entries_loop_result [OF d, of kp hp mp 1 entries]])
    fix st'
    assume "produced (unique_pools (kp, hp, mp)) ?r ?st
              (emission_plan (kp, hp, mp) 1 entries) (skip_total (kp, hp, mp) entries) st'"
    then show "run_ok ?r (Some (Inr ((questions st', skipped st'), rng_state st')))
        (\<lambda>res. snd (fst res) = skip_total (kp, hp, mp) entries
           \<and> list_all2 (question_ok (unique_pools (kp, hp, mp))) (fst (fst res))
               (emission_plan (kp, hp, mp) 1 entries))"
      by (intro run_ok_Some) (auto simp: produced_def)
  qed
qed

text \<open>What the statements below read off a run.\<close>

lemma generate_cases:
  obtains (stall) "generate_all_questions entries kp hp mp min_options rng_arg ambient = None"
      "\<not> never_stalls (case rng_arg of None \<Rightarrow> ambient | Some given \<Rightarrow> given)"
  | (ret) qs r' where
      "generate_all_questions entries kp hp mp min_options rng_arg ambient
         = Some (Inr ((qs, skip_total (kp, hp, mp) entries), r'))"
      "list_all2 (question_ok (unique_pools (kp, hp, mp))) qs
         (emission_plan (kp, hp, mp) 1 entries)"
  using generate_result [where rng_arg = rng_arg and ambient = ambient and entries = entries
      and kp = kp and hp = hp and mp = mp and min_options = min_options]
proof (cases rule: run_ok_cases)
  case stall
  then show ?thesis by (rule that(1))
next
  case (ret x)
  obtain qs sk r' where x: "x = ((qs, sk), r')" by (cases x) auto
  show ?thesis using ret by (intro that(2) [of qs r']) (simp_all add: x)
qed

section \<open>Random sources that never stall\<close>

lemma free_position:
  assumes "finite sel" and "card sel < n"
  obtains v where "v < n" and "v \<notin> sel"
proof -
  have "\<not> {..<n} \<subseteq> sel"
  proof
    assume "{..<n} \<subseteq> sel"
    from card_mono [OF assms(1) this] assms(2) show False by simp
  qed
  then show ?thesis using that by auto
qed

lemma never_stallsI:
  assumes "\<And>n v p. v < n \<Longrightarrow> \<exists>i. draws r (p + i) mod n = v"
  shows "never_stalls r"
  unfolding never_stalls_def
proof (intro allI impI)
  fix n :: nat and sel :: "nat set" and p :: nat
  assume "finite sel \<and> card sel < n"
  then obtain v where v: "v < n" "v \<notin> sel" using free_position [of sel n] by blast
  from assms [OF v(1), of p] obtain i where "draws r (p + i) mod n = v" by blast
  with v(2) show "\<exists>i. draws r (p + i) mod n \<notin> sel" by blast
qed

lemma never_stalls_example_rng: "never_stalls example_rng"
proof (rule never_stallsI)
  fix n v p :: nat
  assume v: "v < n"
  then have le: "p \<le> n * p" by (cases n) simp_all
  then have "p + (v + n * p - p) = v + n * p" by linarith
  then have "draws example_rng (p + (v + n * p - p)) mod n = v"
    using v by (simp add: example_rng_def)
  then show "\<exists>i. draws example_rng (p + i) mod n = v" by blast
qed

lemma never_stalls_example_rng_shifted: "never_stalls example_rng_shifted"
proof (rule never_stallsI)
  fix n v p :: nat
  assume v: "v < n"
  then have le: "p \<le> n * p" by (cases n) simp_all
  then have "p + (v + n * p + 2 - p) - 2 = v + n * p" by linarith
  then have "draws example_rng_shifted (p + (v + n * p + 2 - p)) mod n = v"
    using v by (simp add: example_rng_shifted_def)
  then show "\<exists>i. draws example_rng_shifted (p + i) mod n = v" by blast
qed

lemma never_stalls_example_rng_repeating: "never_stalls example_rng_repeating"
proof (rule never_stallsI)
  fix n v p :: nat
  assume v: "v < n"
  then have le: "p \<le> 2 * (v + n * p)" by (cases n) simp_all
  then have "p + (2 * (v + n * p) - p) = 2 * (v + n * p)" by linarith
  then have "(p + (2 * (v + n * p) - p)) div 2 = v + n * p" by simp
  then have "draws example_rng_repeating (p + (2 * (v + n * p) - p)) mod n = v"
    using v by (simp add: example_rng_repeating_def)
  then show "\<exists>i. draws example_rng_repeating (p + i) mod n = v" by blast
qed

text \<open>A source that repeats one number stalls the set loop: the second draw of a sample
  from more than 21 candidates is the position already selected, and so is every
  redraw.\<close>

lemma redraw_stalls:
  assumes "redraw n sel j r = Some y"
  shows "\<not> (j \<in> sel \<and> (\<forall>i. draws r i mod n \<in> sel))"
  using assms
proof (induction n sel j r y rule: redraw.raw_induct [rotated 1, consumes 1, case_names step])
  case (step rd n sel j r y)
  note IH = step(1) and eq = step(2)
  show ?case
  proof
    assume a: "j \<in> sel \<and> (\<forall>i. draws r i mod n \<in> sel)"
    let ?j' = "draws r (pos r) mod n" and ?r' = "r\<lparr>pos := Suc (pos r)\<rparr>"
    have "rd n sel ?j' ?r' = Some y" using eq a by (simp add: randbelow_def)
    then have "\<not> (?j' \<in> sel \<and> (\<forall>i. draws ?r' i mod n \<in> sel))" by (rule IH)
    with a show False by simp
  qed
qed

lemma py_sample_stalls:
  assumes "21 < length population" and "2 \<le> k" and "k \<le> 5"
  shows "py_sample population k \<lparr>draws = (\<lambda>i. c), pos = p\<rparr> = None"
proof -
  let ?n = "length population"
  let ?r = "\<lparr>draws = (\<lambda>i. c), pos = p\<rparr>"
  obtain k' where k: "k = Suc (Suc k')" using assms(2) by (cases k; cases "k - 1") auto
  let ?r1 = "?r\<lparr>pos := Suc (pos ?r)\<rparr>"
  let ?r2 = "?r1\<lparr>pos := Suc (pos ?r1)\<rparr>"
  have first: "redraw ?n {} (c mod ?n) ?r1 = Some (c mod ?n, ?r1)"
    by (rule redraw_fresh) simp
  have second: "redraw ?n {c mod ?n} (c mod ?n) ?r2 = None"
  proof (cases "redraw ?n {c mod ?n} (c mod ?n) ?r2")
    case None
    then show ?thesis .
  next
    case (Some y)
    from redraw_stalls [OF Some] show ?thesis by simp
  qed
  have "sample_set_loop population ?n {} k ?r = None"
    unfolding k sample_set_loop.simps
    using first second by (simp add: randbelow_def)
  moreover have "sample_setsize k = 21" using assms(3) by (simp add: sample_setsize_def)
  ultimately show ?thesis
    using assms(1,3) by (simp add: py_sample_def)
qed

section \<open>Reading the questions off the emission plan\<close>

lemma list_all2_set_left:
  "list_all2 R xs ys \<Longrightarrow> x \<in> set xs \<Longrightarrow> \<exists>y \<in> set ys. R x y"
  by (induction rule: list_all2_induct) auto

lemma list_all2_map_eq:
  "list_all2 R xs ys \<Longrightarrow> (\<And>x y. R x y \<Longrightarrow> f x = g y) \<Longrightarrow> map f xs = map g ys"
  by (induction rule: list_all2_induct) auto


lemma list_all2_sorted_wrt:
  assumes "list_all2 R xs ys" and "sorted_wrt Q ys"
    and "\<And>x x' y y'. R x y \<Longrightarrow> R x' y' \<Longrightarrow> Q y y' \<Longrightarrow> Q' x x'"
  shows "sorted_wrt Q' xs"
  using assms(1,2)
proof (induction rule: list_all2_induct)
  case Nil
  show ?case by simp
next
  case (Cons x xs y ys)
  have "\<forall>x' \<in> set xs. Q' x x'"
  proof
    fix x' assume "x' \<in> set xs"
    from list_all2_set_left [OF Cons.hyps(2) this] obtain y' where
      "y' \<in> set ys" "R x' y'" by blast
    with Cons.prems Cons.hyps(1) show "Q' x x'" using assms(3) by auto
  qed
  with Cons show ?case by simp
qed

text \<open>The entries of the plan: positions, entries and directions.\<close>

lemma emission_plan_member:
  "(i, e, d) \<in> set (emission_plan P idx es) \<Longrightarrow>
     idx \<le> i \<and> i < idx + length es \<and> e = es ! (i - idx) \<and> d \<in> set six_directions
     \<and> direction_outcome P e d = Emitted"
proof (induction es arbitrary: idx)
  case Nil
  then show ?case by simp
next
  case (Cons a es)
  from Cons.prems consider
    (head) "i = idx" "e = a" "d \<in> set six_directions" "direction_outcome P a d = Emitted"
    | (tail) "(i, e, d) \<in> set (emission_plan P (Suc idx) es)"
    by auto
  then show ?case
  proof cases
    case head
    then show ?thesis by simp
  next
    case tail
    from Cons.IH [OF tail] show ?thesis by (auto simp: Suc_diff_le)
  qed
qed

lemma rank_strs:
  "direction_rank ''kanji_to_hiragana'' = 0"
  "direction_rank ''kanji_to_meaning'' = 1"
  "direction_rank ''kana_to_meaning'' = 2"
  "direction_rank ''kana_to_kanji'' = 3"
  "direction_rank ''meaning_to_kanji'' = 4"
  "direction_rank ''meaning_to_kana'' = 5"
  by (simp_all add: direction_rank_def)

lemma six_directions_ranked:
  "sorted_wrt (\<lambda>d d'. direction_rank (type_tag d) < direction_rank (type_tag d')) six_directions"
  by (simp add: six_directions_def rank_strs)

lemma emission_plan_sorted: "sorted_wrt plan_before (emission_plan P idx es)"
proof (induction es arbitrary: idx)
  case Nil
  show ?case by simp
next
  case (Cons e es)
  let ?head = "map (\<lambda>d. (idx, e, d))
                 (filter (\<lambda>d. direction_outcome P e d = Emitted) six_directions)"
  have "sorted_wrt (\<lambda>d d'. direction_rank (type_tag d) < direction_rank (type_tag d'))
          (filter (\<lambda>d. direction_outcome P e d = Emitted) six_directions)"
    using six_directions_ranked by (rule sorted_wrt_filter)
  then have h: "sorted_wrt plan_before ?head"
    by (simp add: sorted_wrt_map plan_before_def)
  have cross: "plan_before x y"
    if "x \<in> set ?head" and "y \<in> set (emission_plan P (Suc idx) es)" for x y
  proof -
    obtain i e' d where y: "y = (i, e', d)" by (cases y) auto
    from emission_plan_member [of i e' d P "Suc idx" es] that(2) y have "Suc idx \<le> i" by simp
    moreover from that(1) have "fst x = idx" by auto
    ultimately show ?thesis by (simp add: plan_before_def y)
  qed
  show ?case
    using h Cons.IH [of "Suc idx"] cross by (simp add: sorted_wrt_append)
qed





section \<open>The generated questions\<close>

lemma question_ok_of_member:
  assumes "list_all2 (question_ok ps) qs (emission_plan P idx es)" and "q \<in> set qs"
  shows "\<exists>i e d. question_ok ps q (i, e, d) \<and> idx \<le> i \<and> i < idx + length es
           \<and> e = es ! (i - idx) \<and> d \<in> set six_directions
           \<and> direction_outcome P e d = Emitted"
proof -
  from list_all2_set_left [OF assms] obtain x where
    x: "x \<in> set (emission_plan P idx es)" "question_ok ps q x" by blast
  obtain i e d where xe: "x = (i, e, d)" by (cases x) auto
  from emission_plan_member [of i e d P idx es] x xe show ?thesis by blast
qed


section \<open>Pools as the caller passes them\<close>

lemma first_appearances_id:
  "distinct xs \<Longrightarrow> [] \<notin> set xs \<Longrightarrow> first_appearances xs = xs"
proof (induction xs rule: rev_induct)
  case Nil
  show ?case by (simp add: first_appearances_def)
next
  case (snoc x xs)
  then show ?case unfolding first_appearances_append1 by auto
qed

lemma unique_pool_idem: "unique_pool (unique_pool pool) = unique_pool pool"
proof -
  have "[] \<notin> set (unique_pool pool)" by (simp add: set_unique_pool)
  with distinct_unique_pool [of pool]
  have "first_appearances (unique_pool pool) = unique_pool pool"
    by (rule first_appearances_id)
  then show ?thesis by (simp add: unique_pool_eq)
qed

lemma build_pools_example_vocabulary:
  "build_pools example_vocabulary = (example_kanji, [''a1''], [])"
  by code_simp

text \<open>
  C1. Over any entry list and the pools built from it, the generator does not raise, and
  every question it returns has exactly four options, pairwise distinct, with the correct
  answer at the recorded index. It returns on every random source that never stalls.
\<close>

theorem generate_options_invariant:
  "case build_pools entries of (kp, hp, mp) \<Rightarrow>
     (never_stalls (case rng_arg of None \<Rightarrow> ambient | Some given \<Rightarrow> given)
        \<longrightarrow> generate_all_questions entries kp hp mp min_options rng_arg ambient \<noteq> None)
     \<and> (\<forall>res. generate_all_questions entries kp hp mp min_options rng_arg ambient = Some res
           \<longrightarrow> (\<exists>qs sk r'. res = Inr ((qs, sk), r')
                  \<and> (\<forall>q \<in> set qs.
                        length (options q) = 4 \<and> distinct (options q)
                        \<and> correct_index q < length (options q)
                        \<and> options q ! correct_index q = correct_answer q)))"
proof -
  obtain kp hp mp where bp: "build_pools entries = (kp, hp, mp)"
    by (cases "build_pools entries") auto
  have run: "(never_stalls (case rng_arg of None \<Rightarrow> ambient | Some given \<Rightarrow> given)
        \<longrightarrow> generate_all_questions entries kp hp mp min_options rng_arg ambient \<noteq> None)
     \<and> (\<forall>res. generate_all_questions entries kp hp mp min_options rng_arg ambient = Some res
           \<longrightarrow> (\<exists>qs sk r'. res = Inr ((qs, sk), r')
                  \<and> (\<forall>q \<in> set qs.
                        length (options q) = 4 \<and> distinct (options q)
                        \<and> correct_index q < length (options q)
                        \<and> options q ! correct_index q = correct_answer q)))"
  proof (cases rule: generate_cases [where entries = entries and kp = kp and hp = hp
        and mp = mp and min_options = min_options and rng_arg = rng_arg and ambient = ambient])
    case stall
    then show ?thesis by simp
  next
    case (ret qs r')
    have "length (options q) = 4 \<and> distinct (options q)
          \<and> correct_index q < length (options q)
          \<and> options q ! correct_index q = correct_answer q" if "q \<in> set qs" for q
      using question_ok_of_member [OF ret(2) that] by auto
    then have "\<forall>q \<in> set qs. length (options q) = 4 \<and> distinct (options q)
          \<and> correct_index q < length (options q)
          \<and> options q ! correct_index q = correct_answer q"
      by blast
    then show ?thesis unfolding ret(1) by auto
  qed
  show ?thesis unfolding bp prod.case by (rule run)
qed

theorem generate_options_invariant_witness:
  "\<exists>qs sk r'.
     generate_all_questions example_vocabulary example_kanji [''a1''] [] 4
         (Some example_rng_repeating) example_rng
       = Some (Inr ((qs, sk), r'))
     \<and> map options qs = [[''k00'', ''k02'', ''k01'', ''k03'']] \<and> sk = 1 \<and> pos r' = 8
     \<and> list_all (\<lambda>q. length (options q) = 4 \<and> distinct (options q)
                      \<and> correct_index q < length (options q)
                      \<and> options q ! correct_index q = correct_answer q) qs"
proof -
  define G where "G = generate_all_questions example_vocabulary example_kanji [''a1''] [] 4
         (Some example_rng_repeating) example_rng"
  have ns: "never_stalls (case Some example_rng_repeating of None \<Rightarrow> example_rng
                           | Some given \<Rightarrow> given)"
    by (simp add: never_stalls_example_rng_repeating)
  have ev: "case G of
       Some (Inr ((qs, sk), r')) \<Rightarrow>
         map options qs = [[''k00'', ''k02'', ''k01'', ''k03'']] \<and> sk = 1 \<and> pos r' = 8
     | _ \<Rightarrow> False"
    unfolding G_def by code_simp
  note inst = generate_options_invariant [where entries = example_vocabulary
      and rng_arg = "Some example_rng_repeating" and ambient = example_rng and min_options = 4,
      unfolded build_pools_example_vocabulary prod.case, folded G_def]
  from inst ns have "G \<noteq> None" by blast
  then obtain res where g0: "G = Some res" by blast
  with inst obtain qs sk r' where
    res: "res = Inr ((qs, sk), r')"
    and p: "\<forall>q \<in> set qs. length (options q) = 4 \<and> distinct (options q)
              \<and> correct_index q < length (options q)
              \<and> options q ! correct_index q = correct_answer q"
    by blast
  have g: "G = Some (Inr ((qs, sk), r'))" using g0 res by simp
  from ev have v: "map options qs = [[''k00'', ''k02'', ''k01'', ''k03'']]" "sk = 1" "pos r' = 8"
    unfolding g by simp_all
  from p have l: "list_all (\<lambda>q. length (options q) = 4 \<and> distinct (options q)
                      \<and> correct_index q < length (options q)
                      \<and> options q ! correct_index q = correct_answer q) qs"
    unfolding list_all_iff .
  show ?thesis
    unfolding G_def [symmetric]
    by (intro exI [of _ qs] exI [of _ sk] exI [of _ r'] conjI g v l)
qed

text \<open>
  C7. The questions come out grouped by entry in source order, and within one entry in
  the fixed order of the six directions (kanji to hiragana, kanji to meaning, kana to
  meaning, kana to kanji, meaning to kanji, meaning to kana): the output is strictly
  increasing in (entry position, rank of the direction). Every question belongs to an
  entry of the list and to one of the six directions; its prompt is that entry's source
  value and its correct answer that entry's target value. The run does not raise, and it
  returns on every random source that never stalls.
\<close>

theorem generate_order:
  "(never_stalls (case rng_arg of None \<Rightarrow> ambient | Some given \<Rightarrow> given)
      \<longrightarrow> generate_all_questions entries kp hp mp min_options rng_arg ambient \<noteq> None)
   \<and> (\<forall>res. generate_all_questions entries kp hp mp min_options rng_arg ambient = Some res
         \<longrightarrow> (\<exists>qs sk r'. res = Inr ((qs, sk), r')
                \<and> sorted_wrt question_before qs
                \<and> (\<forall>q \<in> set qs.
                      1 \<le> entry_index q \<and> entry_index q \<le> length entries
                      \<and> (\<exists>d \<in> set six_directions.
                            q_type q = type_tag d
                            \<and> prompt q = field_val (fst d) (entries ! (entry_index q - 1))
                            \<and> correct_answer q
                                = field_val (snd d) (entries ! (entry_index q - 1))))))"
proof (cases rule: generate_cases [where entries = entries and kp = kp and hp = hp
      and mp = mp and min_options = min_options and rng_arg = rng_arg and ambient = ambient])
  case stall
  then show ?thesis by simp
next
  case (ret qs r')
  note ok = ret(2)
  have before: "question_before q q'"
    if "question_ok (unique_pools (kp, hp, mp)) q x"
      and "question_ok (unique_pools (kp, hp, mp)) q' x'" and "plan_before x x'"
    for q q' x x'
    using that by (cases x; cases x') (auto simp: question_before_def plan_before_def)
  have srt: "sorted_wrt question_before qs"
    using ok emission_plan_sorted before by (rule list_all2_sorted_wrt)
  have mem: "1 \<le> entry_index q \<and> entry_index q \<le> length entries
           \<and> (\<exists>d \<in> set six_directions.
                 q_type q = type_tag d
                 \<and> prompt q = field_val (fst d) (entries ! (entry_index q - 1))
                 \<and> correct_answer q = field_val (snd d) (entries ! (entry_index q - 1)))"
    if "q \<in> set qs" for q
    using question_ok_of_member [OF ok that] by auto
  show ?thesis unfolding ret(1) using srt mem by simp
qed

theorem generate_order_witness:
  "\<exists>qs sk r'.
     generate_all_questions [(''k1'', ''a1'', []), (''k2'', [], ''m2'')]
         [''k1'', ''k2'', ''k3'', ''k4''] [''a1'', ''a2'', ''a3'', ''a4''] [] 4 None example_rng
       = Some (Inr ((qs, sk), r'))
     \<and> sorted_wrt question_before qs
     \<and> map (\<lambda>q. (entry_index q, q_type q, prompt q, correct_answer q)) qs
         = [(1, ''kanji_to_hiragana'', ''k1'', ''a1''), (1, ''kana_to_kanji'', ''a1'', ''k1''),
            (2, ''meaning_to_kanji'', ''m2'', ''k2'')]"
proof -
  define G where "G = generate_all_questions [(''k1'', ''a1'', []), (''k2'', [], ''m2'')]
         [''k1'', ''k2'', ''k3'', ''k4''] [''a1'', ''a2'', ''a3'', ''a4''] [] 4 None example_rng"
  have ns: "never_stalls (case None of None \<Rightarrow> example_rng | Some given \<Rightarrow> given)"
    by (simp add: never_stalls_example_rng)
  have ev: "case G of
       Some (Inr ((qs, sk), _)) \<Rightarrow>
         map (\<lambda>q. (entry_index q, q_type q, prompt q, correct_answer q)) qs
         = [(1, ''kanji_to_hiragana'', ''k1'', ''a1''), (1, ''kana_to_kanji'', ''a1'', ''k1''),
            (2, ''meaning_to_kanji'', ''m2'', ''k2'')]
     | _ \<Rightarrow> False"
    unfolding G_def by code_simp
  note inst = generate_order [where rng_arg = None and ambient = example_rng
      and entries = "[(''k1'', ''a1'', []), (''k2'', [], ''m2'')]"
      and kp = "[''k1'', ''k2'', ''k3'', ''k4'']" and hp = "[''a1'', ''a2'', ''a3'', ''a4'']"
      and mp = "[]" and min_options = 4, folded G_def]
  from inst ns have "G \<noteq> None" by blast
  then obtain res where g0: "G = Some res" by blast
  with inst obtain qs sk r' where
    res: "res = Inr ((qs, sk), r')" and p: "sorted_wrt question_before qs"
    by blast
  have g: "G = Some (Inr ((qs, sk), r'))" using g0 res by simp
  from ev have m: "map (\<lambda>q. (entry_index q, q_type q, prompt q, correct_answer q)) qs
         = [(1, ''kanji_to_hiragana'', ''k1'', ''a1''), (1, ''kana_to_kanji'', ''a1'', ''k1''),
            (2, ''meaning_to_kanji'', ''m2'', ''k2'')]"
    unfolding g by simp
  show ?thesis
    unfolding G_def [symmetric]
    by (intro exI [of _ qs] exI [of _ sk] exI [of _ r'] conjI g p m)
qed

text \<open>
  C9. The generator works on \<open>unique_pool\<close> of each pool it receives, which is the pool
  with duplicates removed (first occurrence kept) and empty strings dropped; so a run on
  arbitrary pools is the run on the normalised pools. The run does not raise, and in
  every question it returns the options are pairwise distinct and non-empty, and every
  option other than the correct answer is a non-empty value of the received pool of the
  target field. It returns on every random source that never stalls.
\<close>

theorem generate_arbitrary_pools:
  "unique_pool kp = first_appearances kp
   \<and> unique_pool hp = first_appearances hp
   \<and> unique_pool mp = first_appearances mp
   \<and> generate_all_questions entries kp hp mp min_options rng_arg ambient
       = generate_all_questions entries (unique_pool kp) (unique_pool hp) (unique_pool mp)
           min_options rng_arg ambient
   \<and> (never_stalls (case rng_arg of None \<Rightarrow> ambient | Some given \<Rightarrow> given)
        \<longrightarrow> generate_all_questions entries kp hp mp min_options rng_arg ambient \<noteq> None)
   \<and> (\<forall>res. generate_all_questions entries kp hp mp min_options rng_arg ambient = Some res
         \<longrightarrow> (\<exists>qs sk r'. res = Inr ((qs, sk), r')
                \<and> (\<forall>q \<in> set qs.
                      distinct (options q) \<and> [] \<notin> set (options q)
                      \<and> (\<exists>d \<in> set six_directions.
                            q_type q = type_tag d
                            \<and> set (options q) - {correct_answer q}
                                \<subseteq> set (pool_for (snd d) (kp, hp, mp)) - {[]}))))"
proof -
  have same: "generate_all_questions entries kp hp mp min_options rng_arg ambient
       = generate_all_questions entries (unique_pool kp) (unique_pool hp) (unique_pool mp)
           min_options rng_arg ambient"
    by (simp add: generate_all_questions_def unique_pool_idem)
  have run: "(never_stalls (case rng_arg of None \<Rightarrow> ambient | Some given \<Rightarrow> given)
        \<longrightarrow> generate_all_questions entries kp hp mp min_options rng_arg ambient \<noteq> None)
   \<and> (\<forall>res. generate_all_questions entries kp hp mp min_options rng_arg ambient = Some res
         \<longrightarrow> (\<exists>qs sk r'. res = Inr ((qs, sk), r')
                \<and> (\<forall>q \<in> set qs.
                      distinct (options q) \<and> [] \<notin> set (options q)
                      \<and> (\<exists>d \<in> set six_directions.
                            q_type q = type_tag d
                            \<and> set (options q) - {correct_answer q}
                                \<subseteq> set (pool_for (snd d) (kp, hp, mp)) - {[]}))))"
  proof (cases rule: generate_cases [where entries = entries and kp = kp and hp = hp
        and mp = mp and min_options = min_options and rng_arg = rng_arg and ambient = ambient])
    case stall
    then show ?thesis by simp
  next
    case (ret qs r')
    note ok = ret(2)
    have mem: "distinct (options q) \<and> [] \<notin> set (options q)
         \<and> (\<exists>d \<in> set six_directions.
               q_type q = type_tag d
               \<and> set (options q) - {correct_answer q}
                   \<subseteq> set (pool_for (snd d) (kp, hp, mp)) - {[]})"
      if "q \<in> set qs" for q
    proof -
      from question_ok_of_member [OF ok that] obtain i e d where
        q: "question_ok (unique_pools (kp, hp, mp)) q (i, e, d)"
        and d: "d \<in> set six_directions"
        by blast
      have "set (pool_for (snd d) (unique_pools (kp, hp, mp)))
          = set (pool_for (snd d) (kp, hp, mp)) - {[]}"
        unfolding pool_for_unique_pools by (rule set_unique_pool)
      with q have "set (options q) - {correct_answer q}
          \<subseteq> set (pool_for (snd d) (kp, hp, mp)) - {[]}"
        by auto
      with q d show ?thesis by auto
    qed
    show ?thesis unfolding ret(1) using mem by simp
  qed
  from same run show ?thesis by (simp only: unique_pool_eq simp_thms)
qed

theorem generate_arbitrary_pools_witness:
  "\<exists>qs sk r'.
     generate_all_questions [(''k1'', ''a1'', [])]
         [''k1'', ''k2'', ''k2'', [], ''k3'', ''k4''] [''a1'', [], ''a1'', ''a2'', ''a3''] []
         4 None example_rng
       = Some (Inr ((qs, sk), r'))
     \<and> length qs = 1 \<and> sk = 1
     \<and> list_all (\<lambda>q. distinct (options q) \<and> [] \<notin> set (options q)) qs"
proof -
  define G where "G = generate_all_questions [(''k1'', ''a1'', [])]
         [''k1'', ''k2'', ''k2'', [], ''k3'', ''k4''] [''a1'', [], ''a1'', ''a2'', ''a3''] []
         4 None example_rng"
  have ns: "never_stalls (case None of None \<Rightarrow> example_rng | Some given \<Rightarrow> given)"
    by (simp add: never_stalls_example_rng)
  have ev: "case G of Some (Inr ((qs, sk), _)) \<Rightarrow> length qs = 1 \<and> sk = 1 | _ \<Rightarrow> False"
    unfolding G_def by code_simp
  from generate_arbitrary_pools [where kp = "[''k1'', ''k2'', ''k2'', [], ''k3'', ''k4'']"
      and hp = "[''a1'', [], ''a1'', ''a2'', ''a3'']" and mp = "[]"
      and entries = "[(''k1'', ''a1'', [])]" and min_options = 4 and rng_arg = None
      and ambient = example_rng, folded G_def]
  have inst: "(never_stalls (case None of None \<Rightarrow> example_rng | Some given \<Rightarrow> given)
        \<longrightarrow> G \<noteq> None)
   \<and> (\<forall>res. G = Some res
         \<longrightarrow> (\<exists>qs sk r'. res = Inr ((qs, sk), r')
                \<and> (\<forall>q \<in> set qs. distinct (options q) \<and> [] \<notin> set (options q))))"
    by blast
  from inst ns have "G \<noteq> None" by blast
  then obtain res where g0: "G = Some res" by blast
  with inst obtain qs sk r' where
    res: "res = Inr ((qs, sk), r')"
    and p: "\<forall>q \<in> set qs. distinct (options q) \<and> [] \<notin> set (options q)"
    by blast
  have g: "G = Some (Inr ((qs, sk), r'))" using g0 res by simp
  from ev have n: "length qs = 1" and s: "sk = 1" unfolding g by simp_all
  from p have l: "list_all (\<lambda>q. distinct (options q) \<and> [] \<notin> set (options q)) qs"
    by (simp add: list_all_iff)
  show ?thesis
    unfolding G_def [symmetric]
    by (intro exI [of _ qs] exI [of _ sk] exI [of _ r'] conjI g n s l)
qed

section \<open>Which directions give a question, and which are counted\<close>







text \<open>
  C4 is not what the code does: \<open>min_options\<close> is never read. The run does not depend on
  it, and with \<open>min_options = 5\<close> and five kanji in the pool the question returned has
  four options, three of them distractors.
\<close>

theorem min_options_is_ignored:
  "(\<forall>m. generate_all_questions entries kp hp mp m rng_arg ambient
        = generate_all_questions entries kp hp mp 4 rng_arg ambient)
   \<and> (case generate_all_questions [(''k1'', ''a1'', [])]
              [''k1'', ''k2'', ''k3'', ''k4'', ''k5''] [''a1''] [] 5 None example_rng of
         Some (Inr ((qs, sk), _)) \<Rightarrow> map (\<lambda>q. length (options q)) qs = [4] \<and> sk = 1
       | _ \<Rightarrow> False)"
proof -
  have "case generate_all_questions [(''k1'', ''a1'', [])]
              [''k1'', ''k2'', ''k3'', ''k4'', ''k5''] [''a1''] [] 5 None example_rng of
         Some (Inr ((qs, sk), _)) \<Rightarrow> map (\<lambda>q. length (options q)) qs = [4] \<and> sk = 1
       | _ \<Rightarrow> False"
    by code_simp
  then show ?thesis by (simp add: generate_all_questions_def)
qed

section \<open>Determinism\<close>

lemma same_draws_sym: "same_draws r1 r2 \<Longrightarrow> same_draws r2 r1"
  by (simp add: same_draws_def)

lemma randbelow_same:
  assumes "same_draws r1 r2"
  shows "fst (randbelow n r1) = fst (randbelow n r2)"
    and "same_draws (snd (randbelow n r1)) (snd (randbelow n r2))"
proof -
  from assms have a: "draws r1 (pos r1 + i) = draws r2 (pos r2 + i)" for i
    by (simp add: same_draws_def)
  from a [of 0] show "fst (randbelow n r1) = fst (randbelow n r2)"
    by (simp add: randbelow_def)
  from a have "draws r1 (Suc (pos r1) + i) = draws r2 (Suc (pos r2) + i)" for i
    using a [of "Suc i"] by simp
  then show "same_draws (snd (randbelow n r1)) (snd (randbelow n r2))"
    by (simp add: randbelow_def same_draws_def)
qed

lemma sample_loop_same:
  "same_draws r1 r2 \<Longrightarrow>
     fst (sample_loop pool m k r1) = fst (sample_loop pool m k r2)
     \<and> same_draws (snd (sample_loop pool m k r1)) (snd (sample_loop pool m k r2))"
proof (induction k arbitrary: pool m r1 r2)
  case 0
  then show ?case by simp
next
  case (Suc k)
  obtain j a where r1: "randbelow m r1 = (j, a)" by (cases "randbelow m r1") auto
  obtain j' b where r2: "randbelow m r2 = (j', b)" by (cases "randbelow m r2") auto
  from randbelow_same [OF Suc.prems, of m] r1 r2 have jj: "j' = j" and ab: "same_draws a b"
    by simp_all
  from Suc.IH [OF ab, of "pool[j := pool ! (m - 1)]" "m - 1"]
  show ?case using r1 r2 jj by (simp add: split_beta)
qed

text \<open>The redraw loop on two sources that deliver the same numbers: when one run
  returns, so does the other, with the same position.\<close>

lemma redraw_same_some:
  assumes "redraw n sel j r1 = Some y"
  shows "\<forall>r2. same_draws r1 r2 \<longrightarrow>
           (\<exists>r2'. redraw n sel j r2 = Some (fst y, r2') \<and> same_draws (snd y) r2')"
  using assms
proof (induction n sel j r1 y rule: redraw.raw_induct [rotated 1, consumes 1, case_names step])
  case (step rd n sel j r1 y)
  note IH = step(1) and eq = step(2)
  show ?case
  proof (intro allI impI)
    fix r2
    assume sd: "same_draws r1 r2"
    show "\<exists>r2'. redraw n sel j r2 = Some (fst y, r2') \<and> same_draws (snd y) r2'"
    proof (cases "j \<in> sel")
      case True
      obtain j' a where r1: "randbelow n r1 = (j', a)" by (cases "randbelow n r1") auto
      obtain j'' b where r2: "randbelow n r2 = (j'', b)" by (cases "randbelow n r2") auto
      from randbelow_same [OF sd, of n] r1 r2 have jj: "j'' = j'" and ab: "same_draws a b"
        by simp_all
      have "rd n sel j' a = Some y" using eq True r1 by simp
      from IH [OF this] ab obtain r2' where
        a: "redraw n sel j' b = Some (fst y, r2')" and b: "same_draws (snd y) r2'"
        by blast
      have "redraw n sel j r2 = redraw n sel j' b"
        using True r2 jj by (subst redraw.simps) simp
      with a b show ?thesis by auto
    next
      case False
      then have "y = (j, r1)" using eq by simp
      moreover have "redraw n sel j r2 = Some (j, r2)" using False by (rule redraw_fresh)
      ultimately show ?thesis using sd by simp
    qed
  qed
qed

lemma redraw_same:
  assumes "same_draws r1 r2"
  shows "rel_option (rel_prod (=) same_draws) (redraw n sel j r1) (redraw n sel j r2)"
proof (cases "redraw n sel j r1")
  case None
  show ?thesis
  proof (cases "redraw n sel j r2")
    case n2: None
    with None show ?thesis by simp
  next
    case (Some y)
    from redraw_same_some [OF Some] same_draws_sym [OF assms] None show ?thesis by auto
  qed
next
  case (Some y)
  from redraw_same_some [OF Some] assms obtain r2' where
    "redraw n sel j r2 = Some (fst y, r2')" "same_draws (snd y) r2'"
    by blast
  with Some show ?thesis by (cases y) simp
qed

lemma sample_set_loop_same:
  "same_draws r1 r2 \<Longrightarrow>
     rel_option (rel_prod (=) same_draws)
       (sample_set_loop population n sel k r1) (sample_set_loop population n sel k r2)"
proof (induction k arbitrary: sel r1 r2)
  case 0
  then show ?case by simp
next
  case (Suc k)
  obtain j0 a where r1: "randbelow n r1 = (j0, a)" by (cases "randbelow n r1") auto
  obtain j0' b where r2: "randbelow n r2 = (j0', b)" by (cases "randbelow n r2") auto
  from randbelow_same [OF Suc.prems, of n] r1 r2 have jj: "j0' = j0" and ab: "same_draws a b"
    by simp_all
  note rd = redraw_same [OF ab, of n sel j0]
  show ?case
  proof (cases "redraw n sel j0 a")
    case None
    with rd have "redraw n sel j0 b = None" by (cases "redraw n sel j0 b") simp_all
    with None show ?thesis using r1 r2 jj by simp
  next
    case (Some y)
    obtain j a1 where y: "y = (j, a1)" by (cases y) auto
    from rd Some y obtain b1 where
      rb: "redraw n sel j0 b = Some (j, b1)" and ab1: "same_draws a1 b1"
      by (cases "redraw n sel j0 b") auto
    note ih = Suc.IH [OF ab1, of "insert j sel"]
    show ?thesis
    proof (cases "sample_set_loop population n (insert j sel) k a1")
      case None
      with ih have "sample_set_loop population n (insert j sel) k b1 = None"
        by (cases "sample_set_loop population n (insert j sel) k b1") simp_all
      with None show ?thesis using r1 r2 jj Some y rb by simp
    next
      case s1: (Some z)
      obtain rest a2 where z: "z = (rest, a2)" by (cases z) auto
      from ih s1 z obtain b2 where
        s2: "sample_set_loop population n (insert j sel) k b1 = Some (rest, b2)"
        and ab2: "same_draws a2 b2"
        by (cases "sample_set_loop population n (insert j sel) k b1") auto
      show ?thesis using r1 r2 jj Some y rb s1 z s2 ab2 by simp
    qed
  qed
qed

lemma py_sample_same:
  assumes "same_draws r1 r2"
  shows "rel_option (rel_sum (=) (rel_prod (=) same_draws))
           (py_sample population k r1) (py_sample population k r2)"
proof -
  let ?n = "length population"
  consider (big) "\<not> k \<le> ?n" | (pool) "k \<le> ?n" "?n \<le> sample_setsize k"
    | (sel) "k \<le> ?n" "\<not> ?n \<le> sample_setsize k"
    by blast
  then show ?thesis
  proof cases
    case big
    then show ?thesis by (simp add: py_sample_def)
  next
    case pool
    from sample_loop_same [OF assms, of population ?n k]
    have "rel_prod (=) same_draws (sample_loop population ?n k r1) (sample_loop population ?n k r2)"
      by (cases "sample_loop population ?n k r1"; cases "sample_loop population ?n k r2") simp
    with pool show ?thesis by (simp add: py_sample_def)
  next
    case sel
    from sample_set_loop_same [OF assms, of population ?n "{}" k]
    have "rel_option (rel_sum (=) (rel_prod (=) same_draws))
            (map_option Inr (sample_set_loop population ?n {} k r1))
            (map_option Inr (sample_set_loop population ?n {} k r2))"
      by (simp add: option.rel_map)
    with sel show ?thesis by (simp add: py_sample_def)
  qed
qed

lemma shuffle_loop_same:
  "same_draws r1 r2 \<Longrightarrow>
     fst (shuffle_loop x i r1) = fst (shuffle_loop x i r2)
     \<and> same_draws (snd (shuffle_loop x i r1)) (snd (shuffle_loop x i r2))"
proof (induction i arbitrary: x r1 r2)
  case 0
  then show ?case by simp
next
  case (Suc i)
  obtain j a where r1: "randbelow (Suc i + 1) r1 = (j, a)"
    by (cases "randbelow (Suc i + 1) r1") auto
  obtain j' b where r2: "randbelow (Suc i + 1) r2 = (j', b)"
    by (cases "randbelow (Suc i + 1) r2") auto
  from randbelow_same [OF Suc.prems, of "Suc i + 1"] r1 r2
  have jj: "j' = j" and ab: "same_draws a b" by simp_all
  from Suc.IH [OF ab, of "x[Suc i := x ! j, j := x ! Suc i]"]
  show ?case using r1 r2 jj by simp
qed

lemma and_then_same:
  assumes "rel_option (rel_sum (=) R) m1 m2"
    and "\<And>x y. R x y \<Longrightarrow> rel_option (rel_sum (=) R') (f x) (g y)"
  shows "rel_option (rel_sum (=) R') (and_then m1 f) (and_then m2 g)"
proof (cases m1)
  case None
  with assms(1) have "m2 = None" by (cases m2) simp_all
  with None show ?thesis by (simp add: and_then_def)
next
  case (Some a)
  with assms(1) obtain b where m2: "m2 = Some b" and ab: "rel_sum (=) R a b"
    by (cases m2) simp_all
  show ?thesis
  proof (cases a)
    case (Inl e)
    with ab have "b = Inl e" by (cases b) simp_all
    with Some m2 Inl show ?thesis by (simp add: and_then_def)
  next
    case (Inr x)
    with ab obtain y where b: "b = Inr y" and xy: "R x y" by (cases b) simp_all
    from assms(2) [OF xy] show ?thesis using Some m2 Inr b by (simp add: and_then_def)
  qed
qed

lemma direction_block_same:
  assumes "state_same s1 s2"
  shows "rel_option (rel_sum (=) state_same)
           (direction_block idx tag s t txt pool s1) (direction_block idx tag s t txt pool s2)"
proof -
  from assms have q: "questions s1 = questions s2" and k: "skipped s1 = skipped s2"
    and r: "same_draws (rng_state s1) (rng_state s2)"
    by (simp_all add: state_same_def)
  let ?cands = "filter (\<lambda>p. p \<noteq> t) pool"
  consider (silent) "s = [] \<or> t = []"
    | (skip) "s \<noteq> []" "t \<noteq> []" "length ?cands < 3"
    | (emit) "s \<noteq> []" "t \<noteq> []" "\<not> length ?cands < 3"
    by blast
  then show ?thesis
  proof cases
    case silent
    then show ?thesis using assms by (simp add: direction_block_silent)
  next
    case skip
    then show ?thesis using q k r by (simp add: direction_block_skip state_same_def)
  next
    case emit
    show ?thesis
      unfolding direction_block_sampled [OF emit]
    proof (rule and_then_same [OF py_sample_same [OF r]])
      fix x y :: "string list \<times> rng"
      assume xy: "rel_prod (=) same_draws x y"
      obtain d a1 where x: "x = (d, a1)" by (cases x) auto
      obtain d' a2 where y: "y = (d', a2)" by (cases y) auto
      from xy x y have dd: "d' = d" and aa: "same_draws a1 a2" by simp_all
      obtain o1 b1 where sh1: "py_shuffle (d @ [t]) a1 = (o1, b1)"
        by (cases "py_shuffle (d @ [t]) a1") auto
      obtain o2 b2 where sh2: "py_shuffle (d @ [t]) a2 = (o2, b2)"
        by (cases "py_shuffle (d @ [t]) a2") auto
      from shuffle_loop_same [OF aa, of "d @ [t]" "length (d @ [t]) - 1"] sh1 sh2
      have oo: "o2 = o1" and bb: "same_draws b1 b2" by (simp_all add: py_shuffle_def)
      show "rel_option (rel_sum (=) state_same)
          (case py_shuffle (fst x @ [t]) (snd x) of (opts, r') \<Rightarrow>
              (case py_index opts t of
                 Inl e \<Rightarrow> Some (Inl e)
               | Inr ci \<Rightarrow>
                   Some (Inr (make_question idx tag s txt t opts ci (s1\<lparr>rng_state := r'\<rparr>)))))
          (case py_shuffle (fst y @ [t]) (snd y) of (opts, r') \<Rightarrow>
              (case py_index opts t of
                 Inl e \<Rightarrow> Some (Inl e)
               | Inr ci \<Rightarrow>
                   Some (Inr (make_question idx tag s txt t opts ci (s2\<lparr>rng_state := r'\<rparr>)))))"
        using x y dd sh1 sh2 oo q k bb
        by (cases "py_index o1 t") (simp_all add: make_question_def state_same_def)
    qed
  qed
qed

lemma run_directions_same:
  "state_same s1 s2 \<Longrightarrow>
     rel_option (rel_sum (=) state_same)
       (run_directions ps idx e ds s1) (run_directions ps idx e ds s2)"
proof (induction ds arbitrary: s1 s2)
  case Nil
  then show ?case by simp
next
  case (Cons d ds)
  show ?case
    unfolding run_directions.simps
    by (rule and_then_same [OF direction_block_same [OF Cons.prems]]) (rule Cons.IH)
qed

lemma entries_loop_same:
  "state_same s1 s2 \<Longrightarrow>
     rel_option (rel_sum (=) state_same)
       (entries_loop kpu hpu mpu idx es s1) (entries_loop kpu hpu mpu idx es s2)"
proof (induction es arbitrary: idx s1 s2)
  case Nil
  then show ?case by simp
next
  case (Cons e es)
  have body: "rel_option (rel_sum (=) state_same)
       (entry_body kpu hpu mpu idx e s1) (entry_body kpu hpu mpu idx e s2)"
    unfolding entry_body_eq by (rule run_directions_same [OF Cons.prems])
  show ?case
    unfolding entries_loop.simps
    by (rule and_then_same [OF body]) (rule Cons.IH)
qed

lemma generate_same:
  assumes "same_draws (case rng_arg of None \<Rightarrow> ambient | Some given \<Rightarrow> given)
                      (case rng_arg' of None \<Rightarrow> ambient' | Some given \<Rightarrow> given)"
  shows "rel_option (rel_sum (=) (\<lambda>x y. fst x = fst y \<and> same_draws (snd x) (snd y)))
           (generate_all_questions entries kp hp mp min_options rng_arg ambient)
           (generate_all_questions entries kp hp mp min_options rng_arg' ambient')"
proof -
  let ?r = "case rng_arg of None \<Rightarrow> ambient | Some given \<Rightarrow> given"
  let ?r' = "case rng_arg' of None \<Rightarrow> ambient' | Some given \<Rightarrow> given"
  let ?s = "\<lparr>questions = [], skipped = 0, rng_state = ?r\<rparr>"
  let ?s' = "\<lparr>questions = [], skipped = 0, rng_state = ?r'\<rparr>"
  let ?loop = "entries_loop (unique_pool kp) (unique_pool hp) (unique_pool mp) 1 entries"
  have "state_same ?s ?s'" using assms by (simp add: state_same_def)
  then have rel: "rel_option (rel_sum (=) state_same) (?loop ?s) (?loop ?s')"
    by (rule entries_loop_same)
  show ?thesis
    unfolding generate_all_questions_def Let_def
    by (rule and_then_same [OF rel]) (simp add: state_same_def)
qed

text \<open>
  C5. Two runs on the same entries, the same pools and the same \<open>min_options\<close>, with
  random sources (passed, or the module-level one) that deliver the same numbers: neither
  raises; when one returns so does the other, with the same questions and the same skip
  count, and they leave random sources that again deliver the same numbers; when one does
  not return, neither does the other. They return when the source never stalls.
\<close>

theorem generate_deterministic:
  assumes "same_draws (case rng_arg of None \<Rightarrow> ambient | Some given \<Rightarrow> given)
                      (case rng_arg' of None \<Rightarrow> ambient' | Some given \<Rightarrow> given)"
  shows "(never_stalls (case rng_arg of None \<Rightarrow> ambient | Some given \<Rightarrow> given)
            \<longrightarrow> generate_all_questions entries kp hp mp min_options rng_arg ambient \<noteq> None)
       \<and> ((generate_all_questions entries kp hp mp min_options rng_arg ambient = None)
            = (generate_all_questions entries kp hp mp min_options rng_arg' ambient' = None))
       \<and> (\<forall>res. generate_all_questions entries kp hp mp min_options rng_arg ambient = Some res
             \<longrightarrow> (\<exists>qs sk r1 r2.
                     res = Inr ((qs, sk), r1)
                     \<and> generate_all_questions entries kp hp mp min_options rng_arg' ambient'
                         = Some (Inr ((qs, sk), r2))
                     \<and> same_draws r1 r2))"
proof -
  let ?G = "generate_all_questions entries kp hp mp min_options rng_arg ambient"
  let ?G' = "generate_all_questions entries kp hp mp min_options rng_arg' ambient'"
  note rel = generate_same [OF assms, of entries kp hp mp min_options]
  show ?thesis
  proof (cases rule: generate_cases [where entries = entries and kp = kp and hp = hp
        and mp = mp and min_options = min_options and rng_arg = rng_arg and ambient = ambient])
    case stall
    from rel stall(1) have "?G' = None" by (cases ?G') simp_all
    with stall show ?thesis by simp
  next
    case (ret qs r1)
    from rel ret(1) obtain b where g': "?G' = Some b"
      and ab: "rel_sum (=) (\<lambda>x y. fst x = fst y \<and> same_draws (snd x) (snd y))
                 (Inr ((qs, skip_total (kp, hp, mp) entries), r1)) b"
      by (cases ?G') simp_all
    from ab obtain y where b: "b = Inr y"
      and y: "fst y = (qs, skip_total (kp, hp, mp) entries)" "same_draws r1 (snd y)"
      by (cases b) auto
    have "?G' = Some (Inr ((qs, skip_total (kp, hp, mp) entries), snd y))"
      using g' b y(1) by (cases y) simp
    with y(2) show ?thesis unfolding ret(1) by auto
  qed
qed

theorem generate_deterministic_witness:
  "\<exists>qs sk r1 r2.
     generate_all_questions [(''k00'', ''a1'', [])] example_kanji [''a1''] [] 4
         (Some example_rng_repeating) example_rng
       = Some (Inr ((qs, sk), r1))
     \<and> generate_all_questions [(''k00'', ''a1'', [])] example_kanji [''a1''] [] 4
         None example_rng_repeating_shifted
       = Some (Inr ((qs, sk), r2))
     \<and> map options qs = [[''k00'', ''k02'', ''k01'', ''k03'']] \<and> sk = 1
     \<and> pos r1 = 8 \<and> pos r2 = 12"
proof -
  define G where "G = generate_all_questions [(''k00'', ''a1'', [])] example_kanji [''a1''] [] 4
         (Some example_rng_repeating) example_rng"
  define G' where "G' = generate_all_questions [(''k00'', ''a1'', [])] example_kanji [''a1''] []
         4 None example_rng_repeating_shifted"
  have h: "same_draws
      (case Some example_rng_repeating of None \<Rightarrow> example_rng | Some given \<Rightarrow> given)
      (case None of None \<Rightarrow> example_rng_repeating_shifted | Some given \<Rightarrow> given)"
    by (simp add: same_draws_def example_rng_repeating_def example_rng_repeating_shifted_def)
  have ns: "never_stalls (case Some example_rng_repeating of None \<Rightarrow> example_rng
                           | Some given \<Rightarrow> given)"
    by (simp add: never_stalls_example_rng_repeating)
  have ev: "case G of
       Some (Inr ((qs, sk), r1)) \<Rightarrow>
         map options qs = [[''k00'', ''k02'', ''k01'', ''k03'']] \<and> sk = 1 \<and> pos r1 = 8
     | _ \<Rightarrow> False"
    unfolding G_def by code_simp
  have ev': "case G' of Some (Inr ((qs, sk), r2)) \<Rightarrow> pos r2 = 12 | _ \<Rightarrow> False"
    unfolding G'_def by code_simp
  note inst = generate_deterministic [OF h, where entries = "[(''k00'', ''a1'', [])]"
      and kp = example_kanji and hp = "[''a1'']" and mp = "[]" and min_options = 4,
      folded G_def G'_def]
  from inst ns have "G \<noteq> None" by blast
  then obtain res where g0: "G = Some res" by blast
  with inst obtain qs sk r1 r2 where
    res: "res = Inr ((qs, sk), r1)" and g': "G' = Some (Inr ((qs, sk), r2))"
    by blast
  have g: "G = Some (Inr ((qs, sk), r1))" using g0 res by simp
  from ev have v: "map options qs = [[''k00'', ''k02'', ''k01'', ''k03'']]" "sk = 1" "pos r1 = 8"
    unfolding g by simp_all
  from ev' have v': "pos r2 = 12" unfolding g' by simp
  show ?thesis
    unfolding G_def [symmetric] G'_def [symmetric]
    by (intro exI [of _ qs] exI [of _ sk] exI [of _ r1] exI [of _ r2] conjI g g' v v')
qed

end
